theory Spec2Isabelle
  imports Main
begin

section \<open>Echo primer transfer generation (echoscripts\_utils.py)\<close>

text \<open>
  A shallow embedding of \<^verbatim>\<open>src/ai_suggested/echoscripts_utils.py\<close>: the well grid,
  the split of the grid into forward and reverse primer pools, the trimming of the
  pools, the rejection-sampling loop of \<^verbatim>\<open>generate_transfer_df\<close> and the join of
  the transfer table with the barcode table.
\<close>

subsection \<open>Python values: exceptions, indexing, \<^verbatim>\<open>str\<close>, slices\<close>

text \<open>The exceptions that the modelled code can raise.\<close>

datatype error = ValueError | IndexError

text \<open>
  A computation of the module either runs forever (\<open>None\<close>), raises
  (\<open>Some (Inl e)\<close>) or returns (\<open>Some (Inr v)\<close>).
\<close>

type_synonym 'a result = "(error + 'a) option"

definition bind_res :: "'a result \<Rightarrow> ('a \<Rightarrow> 'b result) \<Rightarrow> 'b result" where
  "bind_res m f =
     (case m of
        None \<Rightarrow> None
      | Some (Inl e) \<Rightarrow> Some (Inl e)
      | Some (Inr v) \<Rightarrow> f v)"

text \<open>Indexing a sequence with a non-negative index; out of range raises.\<close>

definition getitem :: "'a list \<Rightarrow> nat \<Rightarrow> error + 'a" where
  "getitem xs i = (if i < length xs then Inr (xs ! i) else Inl IndexError)"

text \<open>\<^verbatim>\<open>string.ascii_uppercase\<close>.\<close>

definition ascii_uppercase :: string where
  "ascii_uppercase = ''ABCDEFGHIJKLMNOPQRSTUVWXYZ''"

text \<open>\<^verbatim>\<open>str(n)\<close> for a non-negative integer: its decimal digits.\<close>

definition digit_char :: "nat \<Rightarrow> char" where
  "digit_char d = ''0123456789'' ! d"

fun str_nat :: "nat \<Rightarrow> string" where
  "str_nat n =
     (if n < 10 then [digit_char n]
      else str_nat (n div 10) @ [digit_char (n mod 10)])"

declare str_nat.simps [simp del]

text \<open>
  The slices \<^verbatim>\<open>xs[::2]\<close> and \<^verbatim>\<open>xs[1::2]\<close>, and \<^verbatim>\<open>xs[k:]\<close> for any integer
  \<open>k\<close> (a negative \<open>k\<close> counts from the end and is clipped at the start).
\<close>

fun slice_even :: "'a list \<Rightarrow> 'a list" where
  "slice_even [] = []"
| "slice_even [x] = [x]"
| "slice_even (x # y # xs) = x # slice_even xs"

definition slice_odd :: "'a list \<Rightarrow> 'a list" where
  "slice_odd xs = slice_even (drop 1 xs)"

definition slice_from :: "int \<Rightarrow> 'a list \<Rightarrow> 'a list" where
  "slice_from k xs =
     (if 0 \<le> k then drop (nat k) xs
      else drop (nat (int (length xs) + k)) xs)"

subsection \<open>The well grid and the primer pools\<close>

text \<open>
  \<^verbatim>\<open>wells384_list\<close>: the names A1..P24 in row-major order.
  \<^verbatim>\<open>wells384_grid\<close>: the same names reshaped to 16 rows of 24; a two-dimensional
  array is the list of its rows.
\<close>

definition wells384_list :: "string list" where
  "wells384_list =
     concat (map (\<lambda>r. map (\<lambda>c. r # str_nat c) [1..<25]) (take 16 ascii_uppercase))"

definition reshape :: "nat \<Rightarrow> nat \<Rightarrow> 'a list \<Rightarrow> 'a list list" where
  "reshape r c xs = map (\<lambda>i. take c (drop (i * c) xs)) [0..<r]"

definition wells384_grid :: "string list list" where
  "wells384_grid = reshape 16 24 wells384_list"

text \<open>
  \<^verbatim>\<open>split_primers_from_grid\<close>: \<^verbatim>\<open>grid[::2, ::2].flatten()\<close> and
  \<^verbatim>\<open>grid[1::2, 1::2].flatten()\<close>.
\<close>

definition split_primers_from_grid :: "'a list list \<Rightarrow> 'a list \<times> 'a list" where
  "split_primers_from_grid grid =
     (concat (map slice_even (slice_even grid)),
      concat (map slice_odd (slice_odd grid)))"

text \<open>
  The dataclass \<^verbatim>\<open>EchoTransferGenerator\<close>. Its constructor takes the seed and,
  optionally, the grid and the two full pools; \<^verbatim>\<open>__post_init__\<close> fills in the
  default grid, and recomputes both pools from the grid when either is missing.
\<close>

record EchoTransferGenerator =
  randseed :: int
  grid :: "string list list"
  fprimers_full :: "string list"
  rprimers_full :: "string list"

definition make_generator ::
  "int \<Rightarrow> string list list option \<Rightarrow> string list option \<Rightarrow> string list option
     \<Rightarrow> EchoTransferGenerator" where
  "make_generator seed grid_arg f_arg r_arg =
     (let g = (case grid_arg of None \<Rightarrow> wells384_grid | Some g \<Rightarrow> g);
          (f, r) = (case (f_arg, r_arg) of
                      (Some f, Some r) \<Rightarrow> (f, r)
                    | _ \<Rightarrow> split_primers_from_grid g)
      in \<lparr>randseed = seed, grid = g, fprimers_full = f, rprimers_full = r\<rparr>)"

text \<open>\<^verbatim>\<open>sample_primers\<close>: both pools without their first \<open>offset\<close> entries.\<close>

definition sample_primers ::
  "EchoTransferGenerator \<Rightarrow> int \<Rightarrow> string list \<times> string list" where
  "sample_primers self offset =
     (slice_from offset (fprimers_full self), slice_from offset (rprimers_full self))"

subsection \<open>The random source\<close>

text \<open>
  The state of numpy's global generator is the stream of the values it will hand out,
  one per call of \<^verbatim>\<open>randint\<close>. \<^verbatim>\<open>np.random.randint(0, high)\<close> raises
  \<^verbatim>\<open>ValueError\<close> when \<open>high \<le> 0\<close> and otherwise returns a value in \<open>[0, high)\<close>:
  the next value of the stream, reduced modulo \<open>high\<close>. Every sequence of in-range
  draws is the reduction of some stream, so nothing is assumed of the generator but
  the range of its results.
\<close>

type_synonym rng = "nat \<Rightarrow> nat"

definition randint :: "rng \<Rightarrow> nat \<Rightarrow> error + (nat \<times> rng)" where
  "randint g high =
     (if high = 0 then Inl ValueError
      else Inr (g 0 mod high, (\<lambda>i. g (Suc i))))"

text \<open>
  \<^verbatim>\<open>np.random.seed(s)\<close> accepts \<open>0 \<le> s < 2^32\<close> and replaces the global state by
  the stream of that seed; the map from seeds to streams is numpy's and is a
  parameter \<open>np_seed\<close> here.
\<close>

definition random_seed :: "(int \<Rightarrow> rng) \<Rightarrow> int \<Rightarrow> error + rng" where
  "random_seed np_seed s =
     (if 0 \<le> s \<and> s < 2 ^ 32 then Inr (np_seed s) else Inl ValueError)"

subsection \<open>The pair-assignment loop of \<^verbatim>\<open>generate_transfer_df\<close>\<close>

text \<open>
  Lines 79--81 and 88--90: \<^verbatim>\<open>ireverse = iforward\<close>, then
  \<^verbatim>\<open>while ireverse == iforward: ireverse = randint(0, len(rprimers))\<close>.
  The loop body runs at least once.
\<close>

partial_function (option) draw_reverse ::
  "nat \<Rightarrow> nat \<Rightarrow> rng \<Rightarrow> (error + (nat \<times> rng)) option" where
  "draw_reverse iforward nr g =
     (case randint g nr of
        Inl e \<Rightarrow> Some (Inl e)
      | Inr (ireverse, g') \<Rightarrow>
          if ireverse = iforward then draw_reverse iforward nr g'
          else Some (Inr (ireverse, g')))"

declare draw_reverse.simps [code]

text \<open>Lines 78--82 and 87--91: one forward draw, then the reverse loop.\<close>

definition draw_pair :: "nat \<Rightarrow> nat \<Rightarrow> rng \<Rightarrow> ((nat \<times> nat) \<times> rng) result" where
  "draw_pair nf nr g =
     (case randint g nf of
        Inl e \<Rightarrow> Some (Inl e)
      | Inr (iforward, g') \<Rightarrow>
          (case draw_reverse iforward nr g' of
             None \<Rightarrow> None
           | Some (Inl e) \<Rightarrow> Some (Inl e)
           | Some (Inr (ireverse, g'')) \<Rightarrow> Some (Inr ((iforward, ireverse), g''))))"

text \<open>Lines 86--91: \<^verbatim>\<open>while currtup in covered_list:\<close> draw a new pair.\<close>

partial_function (option) resample ::
  "(nat \<times> nat) list \<Rightarrow> nat \<Rightarrow> nat \<Rightarrow> nat \<times> nat \<Rightarrow> rng
     \<Rightarrow> (error + ((nat \<times> nat) \<times> rng)) option" where
  "resample covered nf nr currtup g =
     (if currtup \<in> set covered then
        (case draw_pair nf nr g of
           None \<Rightarrow> None
         | Some (Inl e) \<Rightarrow> Some (Inl e)
         | Some (Inr (tup, g')) \<Rightarrow> resample covered nf nr tup g')
      else Some (Inr (currtup, g)))"

declare resample.simps [code]

text \<open>
  A line of the transfer table, and the local variables of the loop. The lists
  \<^verbatim>\<open>sourcewells\<close>, \<^verbatim>\<open>destwells\<close> and \<^verbatim>\<open>vols\<close> grow in step and become the
  three columns of the data frame: they are kept as one list of lines. After every
  draw \<^verbatim>\<open>currtup\<close> is \<^verbatim>\<open>(iforward, ireverse)\<close>, so the pair stands for all three.
\<close>

record transfer_row =
  source_well :: string
  destination_well :: string
  volume :: int

record loop_state =
  currtup :: "nat \<times> nat"
  covered_list :: "(nat \<times> nat) list"
  lines :: "transfer_row list"
  rng_state :: rng

text \<open>\<^verbatim>\<open>string.ascii_uppercase[row] + str(col + 1)\<close>.\<close>

definition dest_label :: "nat \<Rightarrow> nat \<Rightarrow> error + string" where
  "dest_label row col =
     (case getitem ascii_uppercase row of
        Inl e \<Rightarrow> Inl e
      | Inr c \<Rightarrow> Inr (c # str_nat (col + 1)))"

text \<open>Lines 86--102: the body of the two \<^verbatim>\<open>for\<close> loops, for one destination well.\<close>

definition cell_step ::
  "string list \<Rightarrow> string list \<Rightarrow> int \<Rightarrow> nat \<times> nat \<Rightarrow> loop_state \<Rightarrow> loop_state result" where
  "cell_step fprimers rprimers volume_nl cell st =
     bind_res (resample (covered_list st) (length fprimers) (length rprimers)
                 (currtup st) (rng_state st))
       (\<lambda>(tup, g').
          case dest_label (fst cell) (snd cell) of
            Inl e \<Rightarrow> Some (Inl e)
          | Inr dest \<Rightarrow>
              (case getitem fprimers (fst tup) of
                 Inl e \<Rightarrow> Some (Inl e)
               | Inr fw \<Rightarrow>
                   (case getitem rprimers (snd tup) of
                      Inl e \<Rightarrow> Some (Inl e)
                    | Inr rv \<Rightarrow>
                        Some (Inr \<lparr>currtup = tup,
                                   covered_list = covered_list st @ [tup],
                                   lines = lines st @
                                     [\<lparr>source_well = fw, destination_well = dest,
                                        volume = volume_nl\<rparr>,
                                      \<lparr>source_well = rv, destination_well = dest,
                                        volume = volume_nl\<rparr>],
                                   rng_state = g'\<rparr>))))"

text \<open>
  The nested loops \<^verbatim>\<open>for row in range(16): for col in range(24):\<close> visit the pairs
  \<open>(row, col)\<close> in row-major order; the loop is a recursion over that list of cells.
\<close>

fun for_cells ::
  "string list \<Rightarrow> string list \<Rightarrow> int \<Rightarrow> (nat \<times> nat) list \<Rightarrow> loop_state \<Rightarrow> loop_state result" where
  "for_cells fprimers rprimers volume_nl [] st = Some (Inr st)"
| "for_cells fprimers rprimers volume_nl (cell # cells) st =
     bind_res (cell_step fprimers rprimers volume_nl cell st)
       (for_cells fprimers rprimers volume_nl cells)"

definition plate_cells :: "(nat \<times> nat) list" where
  "plate_cells = List.product [0..<16] [0..<24]"

text \<open>Lines 72--102: the first pair is drawn before the loops start.\<close>

definition transfer_loop ::
  "string list \<Rightarrow> string list \<Rightarrow> int \<Rightarrow> (nat \<times> nat) list \<Rightarrow> rng \<Rightarrow> loop_state result" where
  "transfer_loop fprimers rprimers volume_nl cells g =
     bind_res (draw_pair (length fprimers) (length rprimers) g)
       (\<lambda>(tup, g').
          for_cells fprimers rprimers volume_nl cells
            \<lparr>currtup = tup, covered_list = [], lines = [], rng_state = g'\<rparr>)"

text \<open>
  \<^verbatim>\<open>generate_transfer_df\<close>. The global generator state \<open>g0\<close> at the time of the call
  is an argument; with \<^verbatim>\<open>use_seed\<close> it is replaced before the first draw.
\<close>

definition generate_transfer_df ::
  "(int \<Rightarrow> rng) \<Rightarrow> EchoTransferGenerator \<Rightarrow> int \<Rightarrow> bool \<Rightarrow> rng \<Rightarrow> transfer_row list result" where
  "generate_transfer_df np_seed self volume_nl use_seed g0 =
     (let (fprimers, rprimers) = sample_primers self 12 in
      case (if use_seed then random_seed np_seed (randseed self) else Inr g0) of
        Inl e \<Rightarrow> Some (Inl e)
      | Inr g \<Rightarrow>
          bind_res (transfer_loop fprimers rprimers volume_nl plate_cells g)
            (\<lambda>st. Some (Inr (lines st))))"

subsection \<open>Joining the transfer table with the barcode table\<close>

text \<open>
  The barcode table has the columns \<^verbatim>\<open>Storage\<close>, \<^verbatim>\<open>Well Position\<close>,
  \<^verbatim>\<open>Sequence Name\<close> and \<^verbatim>\<open>Sequence\<close>; the joined table keeps
  \<^verbatim>\<open>Destination Well\<close> and \<^verbatim>\<open>Sequence\<close> and gains \<^verbatim>\<open>Direction\<close>, which is
  missing (\<open>None\<close>) where the pattern does not match.

  A Python string is a sequence of Unicode code points. The sequence name is matched
  against a pattern and the sequence is searched for a character, so both are lists
  of code points, and so is the role, a single code point. The well labels are only
  compared for equality and copied; they stay byte strings, as in the transfer table.
\<close>

record barcode_row =
  storage :: string
  well_position :: string
  sequence_name :: "nat list"
  sequence :: "nat list"

record joined_row =
  joined_destination_well :: string
  joined_sequence :: "nat list"
  direction :: "nat option"

text \<open>
  The pattern \<^verbatim>\<open>([^\d])\d*$\<close>. In a Python 3 string pattern \<^verbatim>\<open>\d\<close> matches every
  Unicode decimal digit; which code points those are is a table of the Unicode
  database, not of this repository, and is the parameter \<open>is_decimal\<close> of the
  functions below. \<^verbatim>\<open>$\<close> matches at the end of the string and just before a line
  feed (code point 10) that ends the string. \<^verbatim>\<open>\d*\<close> takes the longest run of
  digits; giving a digit back never helps, since \<^verbatim>\<open>$\<close> does not match in front of
  a digit. \<open>match_here\<close> matches the pattern at the start of a suffix of the name
  and returns the group; \<open>extract_direction\<close> is \<^verbatim>\<open>str.extract\<close>: the group of the
  leftmost match.
\<close>

definition at_dollar :: "nat list \<Rightarrow> bool" where
  "at_dollar rest = (rest = [] \<or> rest = [10])"

definition match_here :: "(nat \<Rightarrow> bool) \<Rightarrow> nat list \<Rightarrow> nat option" where
  "match_here is_decimal s =
     (case s of
        [] \<Rightarrow> None
      | c # rest \<Rightarrow>
          if \<not> is_decimal c \<and> at_dollar (dropWhile is_decimal rest) then Some c else None)"

fun extract_direction :: "(nat \<Rightarrow> bool) \<Rightarrow> nat list \<Rightarrow> nat option" where
  "extract_direction is_decimal [] = None"
| "extract_direction is_decimal (c # rest) =
     (case match_here is_decimal (c # rest) of
        Some d \<Rightarrow> Some d
      | None \<Rightarrow> extract_direction is_decimal rest)"

text \<open>\<^verbatim>\<open>str.replace(' ', '')\<close>: the space is code point 32.\<close>

definition remove_spaces :: "nat list \<Rightarrow> nat list" where
  "remove_spaces s = filter (\<lambda>c. c \<noteq> 32) s"

text \<open>
  \<^verbatim>\<open>join_transfer_with_barcodes\<close>: the inner join on
  \<^verbatim>\<open>Source Well = Storage\<close>, in the order of the transfer lines, then the new
  column, the dropped columns and the cleaned sequence.
\<close>

definition join_transfer_with_barcodes ::
  "(nat \<Rightarrow> bool) \<Rightarrow> transfer_row list \<Rightarrow> barcode_row list \<Rightarrow> joined_row list" where
  "join_transfer_with_barcodes is_decimal df_transfer df_barcodes =
     concat (map (\<lambda>t.
       map (\<lambda>b. \<lparr>joined_destination_well = destination_well t,
                  joined_sequence = remove_spaces (sequence b),
                  direction = extract_direction is_decimal (sequence_name b)\<rparr>)
           (filter (\<lambda>b. storage b = source_well t) df_barcodes))
       df_transfer)"

subsection \<open>Notions used in the statements\<close>

text \<open>
  A pair of indices that the engine may accept for pools of sizes \<open>nf\<close> and \<open>nr\<close>;
  the label of a destination cell and the two lines emitted for a cell and its
  pair; the generator state after \<open>k\<close> further draws.
\<close>

definition valid_pair :: "nat \<Rightarrow> nat \<Rightarrow> nat \<times> nat \<Rightarrow> bool" where
  "valid_pair nf nr p = (fst p < nf \<and> snd p < nr \<and> fst p \<noteq> snd p)"

definition cell_label :: "nat \<times> nat \<Rightarrow> string" where
  "cell_label c = ascii_uppercase ! fst c # str_nat (snd c + 1)"

definition cell_lines ::
  "string list \<Rightarrow> string list \<Rightarrow> int \<Rightarrow> (nat \<times> nat) \<times> (nat \<times> nat) \<Rightarrow> transfer_row list" where
  "cell_lines fp rp vol cp =
     [\<lparr>source_well = fp ! fst (snd cp), destination_well = cell_label (fst cp), volume = vol\<rparr>,
      \<lparr>source_well = rp ! snd (snd cp), destination_well = cell_label (fst cp), volume = vol\<rparr>]"

definition shift :: "nat \<Rightarrow> rng \<Rightarrow> rng" where
  "shift k g = (\<lambda>i. g (k + i))"

text \<open>
  The pairs that the random source hands out: the results of the first \<open>m\<close>
  consecutive runs of lines 87--91 (forward draw, reverse loop) on a stream. Every
  pair the engine looks at is one of these, in this order, whether it accepts or
  rejects it. A source is fair for pools of sizes \<open>nf\<close> and \<open>nr\<close> when every
  admissible pair comes up among finitely many of its pairs. With at least two
  reverse primers every pair has a positive chance at every attempt, whatever was
  drawn before; with a single reverse primer a forward draw of index 0 leaves the
  reverse loop nothing to accept.
\<close>

fun draws :: "nat \<Rightarrow> nat \<Rightarrow> nat \<Rightarrow> rng \<Rightarrow> ((nat \<times> nat) list \<times> rng) result" where
  "draws 0 nf nr g = Some (Inr ([], g))"
| "draws (Suc m) nf nr g =
     bind_res (draw_pair nf nr g)
       (\<lambda>(p, g'). bind_res (draws m nf nr g') (\<lambda>(ps, g''). Some (Inr (p # ps, g''))))"

definition fair :: "nat \<Rightarrow> nat \<Rightarrow> rng \<Rightarrow> bool" where
  "fair nf nr g =
     (\<exists>m ps g'. draws m nf nr g = Some (Inr (ps, g'))
        \<and> (\<forall>p. valid_pair nf nr p \<longrightarrow> p \<in> set ps))"

text \<open>
  The random stream that hands out the components of the given pairs one after the
  other, and zeros after that.
\<close>

definition stream_of_pairs :: "(nat \<times> nat) list \<Rightarrow> rng" where
  "stream_of_pairs ps i =
     (if i div 2 < length ps
      then (if even i then fst (ps ! (i div 2)) else snd (ps ! (i div 2)))
      else 0)"

text \<open>
  The admissible pairs in row-major order, and the random stream that starts with
  the given draws and goes on as another stream.
\<close>

definition all_pairs :: "nat \<Rightarrow> nat \<Rightarrow> (nat \<times> nat) list" where
  "all_pairs nf nr = filter (\<lambda>p. fst p \<noteq> snd p) (List.product [0..<nf] [0..<nr])"

definition prepend :: "nat list \<Rightarrow> rng \<Rightarrow> rng" where
  "prepend xs g = (\<lambda>i. if i < length xs then xs ! i else g (i - length xs))"

text \<open>
  The code points of a byte string of ASCII characters. White space as
  \<^verbatim>\<open>str.isspace\<close> has it, and a string without it. A class of decimal digits for
  the examples: the digits of ASCII, the Arabic-Indic digits and the fullwidth digits.
\<close>

definition codepoints :: "string \<Rightarrow> nat list" where
  "codepoints s = map of_char s"

definition is_whitespace :: "nat \<Rightarrow> bool" where
  "is_whitespace c =
     (c \<in> {9..13} \<union> {28..32} \<union> {133, 160, 5760} \<union> {8192..8202}
        \<union> {8232, 8233, 8239, 8287, 12288})"

definition without_whitespace :: "nat list \<Rightarrow> nat list" where
  "without_whitespace s = filter (\<lambda>c. \<not> is_whitespace c) s"

definition sample_decimal :: "nat \<Rightarrow> bool" where
  "sample_decimal c = (c \<in> {48..57} \<union> {1632..1641} \<union> {65296..65305})"

section \<open>Properties of the pair-assignment loop\<close>

subsection \<open>Auxiliary facts\<close>

lemma randint_Inr: "randint g n = Inr (v, g') \<Longrightarrow> v < n"
  by (auto simp: randint_def split: if_splits)

lemma randint_Inl: "randint g n = Inl e \<Longrightarrow> n = 0 \<and> e = ValueError"
  by (auto simp: randint_def split: if_splits)

lemma draw_reverse_ret:
  assumes "draw_reverse f n g = Some x"
  shows "case x of Inl e \<Rightarrow> n = 0 \<and> e = ValueError | Inr (r, g') \<Rightarrow> r < n \<and> r \<noteq> f"
proof (rule draw_reverse.raw_induct
    [where P = "\<lambda>f n g x. case x of Inl e \<Rightarrow> n = 0 \<and> e = ValueError
                           | Inr (r, g') \<Rightarrow> r < n \<and> r \<noteq> f", OF _ assms])
  fix dr f n g x
  assume IH: "\<And>f n g x. dr f n g = Some x \<Longrightarrow>
      (case x of Inl e \<Rightarrow> n = 0 \<and> e = ValueError | Inr (r, g') \<Rightarrow> r < n \<and> r \<noteq> f)"
    and step: "(case randint g n of
        Inl e \<Rightarrow> Some (Inl e)
      | Inr (ireverse, g') \<Rightarrow>
          if ireverse = f then dr f n g'
          else Some (Inr (ireverse, g'))) = Some x"
  show "case x of Inl e \<Rightarrow> n = 0 \<and> e = ValueError | Inr (r, g') \<Rightarrow> r < n \<and> r \<noteq> f"
  proof (cases "randint g n")
    case (Inl e)
    with step randint_Inl[of g n e] show ?thesis by auto
  next
    case (Inr q)
    obtain r g' where q: "q = (r, g')" by (cases q)
    show ?thesis
    proof (cases "r = f")
      case True
      with step Inr q have "dr f n g' = Some x" by simp
      from IH[OF this] show ?thesis .
    next
      case False
      with step Inr q randint_Inr[of g n r g'] show ?thesis by auto
    qed
  qed
qed

lemma draw_pair_ret:
  "draw_pair nf nr g = Some (Inr (p, g')) \<Longrightarrow> valid_pair nf nr p"
  by (auto simp: draw_pair_def valid_pair_def split: sum.splits prod.splits option.splits 
      dest: randint_Inr draw_reverse_ret)

lemma draw_pair_err:
  "draw_pair nf nr g = Some (Inl e) \<Longrightarrow> (nf = 0 \<or> nr = 0) \<and> e = ValueError"
  by (auto simp: draw_pair_def valid_pair_def split: sum.splits prod.splits option.splits 
      dest: randint_Inl draw_reverse_ret)

lemma resample_ret:
  assumes "resample cov nf nr tup g = Some x"
  shows "case x of Inl e \<Rightarrow> (nf = 0 \<or> nr = 0) \<and> e = ValueError
      | Inr (tup', g') \<Rightarrow> tup' \<notin> set cov \<and> (tup' = tup \<or> valid_pair nf nr tup')"
proof (rule resample.raw_induct
    [where P = "\<lambda>cov nf nr tup g x. case x of Inl e \<Rightarrow> (nf = 0 \<or> nr = 0) \<and> e = ValueError
      | Inr (tup', g') \<Rightarrow> tup' \<notin> set cov \<and> (tup' = tup \<or> valid_pair nf nr tup')", OF _ assms])
  fix rs cov nf nr tup g x
  assume IH: "\<And>cov nf nr tup g x. rs cov nf nr tup g = Some x \<Longrightarrow>
     (case x of Inl e \<Rightarrow> (nf = 0 \<or> nr = 0) \<and> e = ValueError
      | Inr (tup', g') \<Rightarrow> tup' \<notin> set cov \<and> (tup' = tup \<or> valid_pair nf nr tup'))"
    and step: "(if tup \<in> set cov then
        (case draw_pair nf nr g of
           None \<Rightarrow> None
         | Some (Inl e) \<Rightarrow> Some (Inl e)
         | Some (Inr (tup, g')) \<Rightarrow> rs cov nf nr tup g')
      else Some (Inr (tup, g))) = Some x"
  show "case x of Inl e \<Rightarrow> (nf = 0 \<or> nr = 0) \<and> e = ValueError
      | Inr (tup', g') \<Rightarrow> tup' \<notin> set cov \<and> (tup' = tup \<or> valid_pair nf nr tup')"
  proof (cases "tup \<in> set cov")
    case False
    with step show ?thesis by auto
  next
    case True
    show ?thesis
    proof (cases "draw_pair nf nr g")
      case None
      with step True show ?thesis by simp
    next
      case (Some y)
      show ?thesis
      proof (cases y)
        case (Inl e)
        with step True Some draw_pair_err[of nf nr g e] show ?thesis by auto
      next
        case (Inr q)
        obtain t g' where q: "q = (t, g')" by (cases q)
        from step True Some Inr q have "rs cov nf nr t g' = Some x" by simp
        from IH[OF this] draw_pair_ret[of nf nr g t g'] Some Inr q
        show ?thesis by (auto split: sum.splits)
      qed
    qed
  qed
qed

lemma bind_res_Inr:
  "bind_res m f = Some (Inr y) \<longleftrightarrow> (\<exists>v. m = Some (Inr v) \<and> f v = Some (Inr y))"
  by (auto simp: bind_res_def split: option.splits sum.splits)

lemma bind_res_Inl:
  "bind_res m f = Some (Inl e) \<longleftrightarrow>
     m = Some (Inl e) \<or> (\<exists>v. m = Some (Inr v) \<and> f v = Some (Inl e))"
  by (auto simp: bind_res_def split: option.splits sum.splits)

lemma bind_res_None:
  "bind_res m f = None \<longleftrightarrow> m = None \<or> (\<exists>v. m = Some (Inr v) \<and> f v = None)"
  by (auto simp: bind_res_def split: option.splits sum.splits)

lemma cell_step_ret:
  assumes "cell_step fp rp vol cell st = Some (Inr st')"
  shows "\<exists>dest. dest_label (fst cell) (snd cell) = Inr dest
           \<and> currtup st' \<notin> set (covered_list st)
           \<and> (currtup st' = currtup st \<or> valid_pair (length fp) (length rp) (currtup st'))
           \<and> covered_list st' = covered_list st @ [currtup st']
           \<and> lines st' = lines st @
                [\<lparr>source_well = fp ! fst (currtup st'), destination_well = dest, volume = vol\<rparr>,
                 \<lparr>source_well = rp ! snd (currtup st'), destination_well = dest, volume = vol\<rparr>]"
proof -
  from assms obtain tup g' where
    rs: "resample (covered_list st) (length fp) (length rp) (currtup st) (rng_state st)
           = Some (Inr (tup, g'))"
    and rest: "(case dest_label (fst cell) (snd cell) of
            Inl e \<Rightarrow> Some (Inl e)
          | Inr dest \<Rightarrow>
              (case getitem fp (fst tup) of
                 Inl e \<Rightarrow> Some (Inl e)
               | Inr fw \<Rightarrow>
                   (case getitem rp (snd tup) of
                      Inl e \<Rightarrow> Some (Inl e)
                    | Inr rv \<Rightarrow>
                        Some (Inr \<lparr>currtup = tup,
                                   covered_list = covered_list st @ [tup],
                                   lines = lines st @
                                     [\<lparr>source_well = fw, destination_well = dest,
                                        volume = vol\<rparr>,
                                      \<lparr>source_well = rv, destination_well = dest,
                                        volume = vol\<rparr>],
                                   rng_state = g'\<rparr>)))) = Some (Inr st')"
    unfolding cell_step_def bind_res_Inr by auto
  from resample_ret[OF rs]
  have tup: "tup \<notin> set (covered_list st)"
    "tup = currtup st \<or> valid_pair (length fp) (length rp) tup" by auto
  from rest tup show ?thesis
    by (auto simp: getitem_def split: sum.splits if_splits)
qed

lemma cell_step_err:
  assumes "cell_step fp rp vol cell st = Some (Inl e)"
    and "valid_pair (length fp) (length rp) (currtup st)"
    and "fst cell < 26"
  shows False
proof -
  from assms(2) have pos: "0 < length fp" "0 < length rp"
    by (auto simp: valid_pair_def)
  have lab: "\<exists>d. dest_label (fst cell) (snd cell) = Inr d"
    using assms(3) by (simp add: dest_label_def getitem_def ascii_uppercase_def)
  from assms(1) consider
    (a) "resample (covered_list st) (length fp) (length rp) (currtup st) (rng_state st)
           = Some (Inl e)"
  | (b) tup g' where "resample (covered_list st) (length fp) (length rp) (currtup st) (rng_state st)
           = Some (Inr (tup, g'))"
      "(case dest_label (fst cell) (snd cell) of
            Inl e \<Rightarrow> Some (Inl e)
          | Inr dest \<Rightarrow>
              (case getitem fp (fst tup) of
                 Inl e \<Rightarrow> Some (Inl e)
               | Inr fw \<Rightarrow>
                   (case getitem rp (snd tup) of
                      Inl e \<Rightarrow> Some (Inl e)
                    | Inr rv \<Rightarrow>
                        Some (Inr \<lparr>currtup = tup,
                                   covered_list = covered_list st @ [tup],
                                   lines = lines st @
                                     [\<lparr>source_well = fw, destination_well = dest,
                                        volume = vol\<rparr>,
                                      \<lparr>source_well = rv, destination_well = dest,
                                        volume = vol\<rparr>],
                                   rng_state = g'\<rparr>)))) = Some (Inl e)"
    unfolding cell_step_def bind_res_Inl by auto
  then show False
  proof cases
    case a
    from resample_ret[OF a] pos show False by simp
  next
    case b
    from resample_ret[OF b(1)] assms(2)
    have "valid_pair (length fp) (length rp) tup" by auto
    with b(2) lab show False
      by (auto simp: getitem_def valid_pair_def split: sum.splits if_splits)
  qed
qed

lemma dest_label_Inr: "dest_label row col = Inr d \<Longrightarrow>
   row < 26 \<and> d = cell_label (row, col)"
  by (auto simp: dest_label_def getitem_def ascii_uppercase_def cell_label_def split: if_splits)

lemma for_cells_ret:
  assumes "for_cells fp rp vol cells st = Some (Inr st')"
    and "valid_pair (length fp) (length rp) (currtup st)"
  shows "\<exists>ps. length ps = length cells
           \<and> covered_list st' = covered_list st @ ps
           \<and> (\<forall>p \<in> set ps. valid_pair (length fp) (length rp) p)
           \<and> (distinct (covered_list st) \<longrightarrow> distinct (covered_list st'))
           \<and> (\<forall>c \<in> set cells. fst c < 26)
           \<and> valid_pair (length fp) (length rp) (currtup st')
           \<and> lines st' = lines st @ concat (map (cell_lines fp rp vol) (zip cells ps))"
  using assms
proof (induction cells arbitrary: st)
  case Nil
  then show ?case by simp
next
  case (Cons cell cells)
  from Cons.prems(1) obtain st1 where
    s1: "cell_step fp rp vol cell st = Some (Inr st1)"
    and s2: "for_cells fp rp vol cells st1 = Some (Inr st')"
    by (auto simp: bind_res_Inr)
  from cell_step_ret[OF s1] obtain dest where
    d: "dest_label (fst cell) (snd cell) = Inr dest"
    and new: "currtup st1 \<notin> set (covered_list st)"
    and v: "currtup st1 = currtup st \<or> valid_pair (length fp) (length rp) (currtup st1)"
    and cov: "covered_list st1 = covered_list st @ [currtup st1]"
    and ln: "lines st1 = lines st @
                [\<lparr>source_well = fp ! fst (currtup st1), destination_well = dest, volume = vol\<rparr>,
                 \<lparr>source_well = rp ! snd (currtup st1), destination_well = dest, volume = vol\<rparr>]"
    by blast
  from v Cons.prems(2) have v1: "valid_pair (length fp) (length rp) (currtup st1)" by auto
  from Cons.IH[OF s2 v1] obtain ps where
    ps: "length ps = length cells" "covered_list st' = covered_list st1 @ ps"
      "\<forall>p \<in> set ps. valid_pair (length fp) (length rp) p"
      "distinct (covered_list st1) \<longrightarrow> distinct (covered_list st')"
      "\<forall>c \<in> set cells. fst c < 26"
      "valid_pair (length fp) (length rp) (currtup st')"
      "lines st' = lines st1 @ concat (map (cell_lines fp rp vol) (zip cells ps))"
    by blast
  from dest_label_Inr[OF d] have dl: "fst cell < 26"
    "dest = cell_label cell" by auto
  let ?ps = "currtup st1 # ps"
  have "length ?ps = length (cell # cells)" using ps(1) by simp
  moreover have "covered_list st' = covered_list st @ ?ps" using ps(2) cov by simp
  moreover have "\<forall>p \<in> set ?ps. valid_pair (length fp) (length rp) p" using ps(3) v1 by simp
  moreover have "distinct (covered_list st) \<longrightarrow> distinct (covered_list st')"
    using ps(4) cov new by simp
  moreover have "\<forall>c \<in> set (cell # cells). fst c < 26" using ps(5) dl by simp
  moreover have "lines st' = lines st @ concat (map (cell_lines fp rp vol) (zip (cell # cells) ?ps))"
    using ps(7) ln dl(2) by (simp add: cell_lines_def)
  ultimately show ?case using ps(6) by blast
qed

lemma for_cells_err:
  assumes "for_cells fp rp vol cells st = Some (Inl e)"
    and "valid_pair (length fp) (length rp) (currtup st)"
    and "\<forall>c \<in> set cells. fst c < 26"
  shows False
  using assms
proof (induction cells arbitrary: st)
  case Nil
  then show ?case by simp
next
  case (Cons cell cells)
  from Cons.prems(1) consider
    (a) "cell_step fp rp vol cell st = Some (Inl e)"
  | (b) st1 where "cell_step fp rp vol cell st = Some (Inr st1)"
      "for_cells fp rp vol cells st1 = Some (Inl e)"
    by (auto simp: bind_res_Inl)
  then show ?case
  proof cases
    case a
    with cell_step_err[OF a Cons.prems(2)] Cons.prems(3) show False by simp
  next
    case b
    from cell_step_ret[OF b(1)] Cons.prems(2)
    have "valid_pair (length fp) (length rp) (currtup st1)" by auto
    from Cons.IH[OF b(2) this] Cons.prems(3) show False by simp
  qed
qed

lemma transfer_loop_ret:
  assumes "transfer_loop fp rp vol cells g = Some (Inr st)"
  shows "length (covered_list st) = length cells
           \<and> distinct (covered_list st)
           \<and> (\<forall>p \<in> set (covered_list st). valid_pair (length fp) (length rp) p)
           \<and> (\<forall>c \<in> set cells. fst c < 26)
           \<and> valid_pair (length fp) (length rp) (currtup st)
           \<and> lines st = concat (map (cell_lines fp rp vol) (zip cells (covered_list st)))"
proof -
  from assms obtain tup g' where
    dp: "draw_pair (length fp) (length rp) g = Some (Inr (tup, g'))"
    and fc: "for_cells fp rp vol cells
               \<lparr>currtup = tup, covered_list = [], lines = [], rng_state = g'\<rparr> = Some (Inr st)"
    unfolding transfer_loop_def bind_res_Inr by auto
  from draw_pair_ret[OF dp] for_cells_ret[OF fc] show ?thesis by auto
qed

lemma transfer_loop_err:
  assumes "transfer_loop fp rp vol cells g = Some (Inl e)"
    and "fp \<noteq> []" and "rp \<noteq> []" and "\<forall>c \<in> set cells. fst c < 26"
  shows False
proof -
  from assms(1) consider
    (a) "draw_pair (length fp) (length rp) g = Some (Inl e)"
  | (b) tup g' where "draw_pair (length fp) (length rp) g = Some (Inr (tup, g'))"
      "for_cells fp rp vol cells
               \<lparr>currtup = tup, covered_list = [], lines = [], rng_state = g'\<rparr> = Some (Inl e)"
    unfolding transfer_loop_def bind_res_Inl by auto
  then show False
  proof cases
    case a
    from draw_pair_err[OF a] assms(2,3) show False by simp
  next
    case b
    from draw_pair_ret[OF b(1)] for_cells_err[OF b(2) _ assms(4)] show False by simp
  qed
qed

lemma card_valid_pairs:
  "card {p. valid_pair nf nr p} = nf * nr - min nf nr"
proof -
  let ?D = "(\<lambda>i. (i, i)) ` {..<min nf nr}"
  have eq: "{p. valid_pair nf nr p} = ({..<nf} \<times> {..<nr}) - ?D"
    by (auto simp: valid_pair_def)
  have sub: "?D \<subseteq> {..<nf} \<times> {..<nr}" by auto
  have "card ?D = min nf nr"
    by (subst card_image) (auto simp: inj_on_def)
  moreover have "card (({..<nf} \<times> {..<nr}) - ?D) = card ({..<nf} \<times> {..<nr}) - card ?D"
    by (rule card_Diff_subset) (use sub in auto)
  ultimately show ?thesis by (simp add: eq)
qed

lemma finite_valid_pairs: "finite {p. valid_pair nf nr p}"
proof -
  have "{p. valid_pair nf nr p} \<subseteq> {..<nf} \<times> {..<nr}"
    by (auto simp: valid_pair_def)
  then show ?thesis by (rule finite_subset) simp
qed

lemma distinct_valid_length:
  assumes "distinct ps" and "\<forall>p \<in> set ps. valid_pair nf nr p"
  shows "length ps \<le> nf * nr - min nf nr"
proof -
  have "length ps = card (set ps)" using assms(1) by (simp add: distinct_card)
  also have "\<dots> \<le> card {p. valid_pair nf nr p}"
    by (rule card_mono[OF finite_valid_pairs]) (use assms(2) in auto)
  finally show ?thesis by (simp add: card_valid_pairs)
qed

lemma transfer_loop_capacity:
  assumes "transfer_loop fp rp vol cells g = Some (Inr st)"
  shows "length cells \<le> length fp * length rp - min (length fp) (length rp)"
  using transfer_loop_ret[OF assms] distinct_valid_length[of "covered_list st" "length fp" "length rp"]
  by simp

lemma for_cells_append:
  "for_cells fp rp vol (xs @ ys) st =
     bind_res (for_cells fp rp vol xs st) (for_cells fp rp vol ys)"
proof (induction xs arbitrary: st)
  case Nil
  show ?case by (simp add: bind_res_def)
next
  case (Cons x xs)
  show ?case
    by (cases "cell_step fp rp vol x st") (auto simp: bind_res_def Cons.IH split: sum.splits)
qed

lemma transfer_loop_append:
  "transfer_loop fp rp vol (xs @ ys) g =
     bind_res (transfer_loop fp rp vol xs g) (for_cells fp rp vol ys)"
  unfolding transfer_loop_def for_cells_append
  by (auto simp: bind_res_def split: option.splits sum.splits)

lemma transfer_loop_prefix:
  assumes "transfer_loop fp rp vol cells g = Some (Inr st)" and "k \<le> length cells"
  shows "\<exists>sk. transfer_loop fp rp vol (take k cells) g = Some (Inr sk)
            \<and> covered_list sk = take k (covered_list st)
            \<and> lines sk = take (2 * k) (lines st)"
proof -
  have "transfer_loop fp rp vol (take k cells @ drop k cells) g = Some (Inr st)"
    using assms(1) by simp
  then obtain sk where
    sk: "transfer_loop fp rp vol (take k cells) g = Some (Inr sk)"
    and rest: "for_cells fp rp vol (drop k cells) sk = Some (Inr st)"
    unfolding transfer_loop_append bind_res_Inr by auto
  from transfer_loop_ret[OF sk] assms(2) have len: "length (covered_list sk) = k"
    and cur: "valid_pair (length fp) (length rp) (currtup sk)"
    and lsk: "lines sk = concat (map (cell_lines fp rp vol) (zip (take k cells) (covered_list sk)))"
    by auto
  have llen: "length (lines sk) = 2 * k"
    unfolding lsk using len assms(2)
    by (simp add: length_concat comp_def cell_lines_def sum_list_triv)
  from for_cells_ret[OF rest cur] obtain ps where
    "covered_list st = covered_list sk @ ps"
    "lines st = lines sk @ concat (map (cell_lines fp rp vol) (zip (drop k cells) ps))"
    by blast
  with len llen sk show ?thesis by simp
qed






lemma shift_0: "shift 0 g = g"
  by (simp add: shift_def)

lemma randint_shift:
  "0 < n \<Longrightarrow> randint (shift k g) n = Inr (g k mod n, shift (Suc k) g)"
  by (simp add: randint_def shift_def)

lemma draw_reverse_stuck:
  assumes "draw_reverse f n g = Some x"
  shows "n = 0 \<or> (\<exists>k. g k mod n \<noteq> f)"
proof (rule draw_reverse.raw_induct
    [where P = "\<lambda>f n g x. n = 0 \<or> (\<exists>k. g k mod n \<noteq> f)", OF _ assms])
  fix dr f n g x
  assume IH: "\<And>f n g x. dr f n g = Some x \<Longrightarrow> n = 0 \<or> (\<exists>k. g k mod n \<noteq> f)"
    and step: "(case randint g n of
        Inl e \<Rightarrow> Some (Inl e)
      | Inr (ireverse, g') \<Rightarrow>
          if ireverse = f then dr f n g'
          else Some (Inr (ireverse, g'))) = Some x"
  show "n = 0 \<or> (\<exists>k. g k mod n \<noteq> f)"
  proof (cases "n = 0 \<or> g 0 mod n \<noteq> f")
    case True
    then show ?thesis by auto
  next
    case False
    then have "randint g n = Inr (f, \<lambda>i. g (Suc i))" by (simp add: randint_def)
    with step have "dr f n (\<lambda>i. g (Suc i)) = Some x" by simp
    from IH[OF this] False show ?thesis by auto
  qed
qed

lemma draw_reverse_returns:
  assumes "0 < n" and "g k mod n \<noteq> f" and "\<forall>i < k. g i mod n = f"
  shows "draw_reverse f n g = Some (Inr (g k mod n, shift (Suc k) g))"
  using assms(2,3)
proof (induction k arbitrary: g)
  case 0
  have "randint g n = Inr (g 0 mod n, shift (Suc 0) g)"
    using randint_shift[OF assms(1), of 0 g] by (simp add: shift_0)
  with 0 show ?case by (subst draw_reverse.simps) simp
next
  case (Suc k)
  have r: "randint g n = Inr (g 0 mod n, shift (Suc 0) g)"
    using randint_shift[OF assms(1), of 0 g] by (simp add: shift_0)
  have g0: "g 0 mod n = f" using Suc.prems(2) by simp
  have "draw_reverse f n (shift (Suc 0) g)
          = Some (Inr (shift (Suc 0) g k mod n, shift (Suc k) (shift (Suc 0) g)))"
    by (rule Suc.IH) (use Suc.prems in \<open>auto simp: shift_def\<close>)
  moreover have "shift (Suc k) (shift (Suc 0) g) = shift (Suc (Suc k)) g"
    by (auto simp: shift_def)
  moreover have "shift (Suc 0) g k = g (Suc k)" by (simp add: shift_def)
  ultimately have "draw_reverse f n (shift (Suc 0) g)
          = Some (Inr (g (Suc k) mod n, shift (Suc (Suc k)) g))" by simp
  with r g0 show ?case by (subst draw_reverse.simps) simp
qed

lemma draw_reverse_terminates_iff:
  assumes "0 < n"
  shows "draw_reverse f n g \<noteq> None \<longleftrightarrow> (\<exists>k. g k mod n \<noteq> f)"
proof
  assume "draw_reverse f n g \<noteq> None"
  then obtain x where "draw_reverse f n g = Some x" by auto
  from draw_reverse_stuck[OF this] assms show "\<exists>k. g k mod n \<noteq> f" by simp
next
  assume ex: "\<exists>k. g k mod n \<noteq> f"
  define k where "k = (LEAST k. g k mod n \<noteq> f)"
  have "g k mod n \<noteq> f" unfolding k_def using ex by (rule LeastI_ex)
  moreover have "\<forall>i < k. g i mod n = f"
    unfolding k_def using not_less_Least by blast
  ultimately show "draw_reverse f n g \<noteq> None"
    using draw_reverse_returns[OF assms] by simp
qed

lemma draw_pair_constant_stream:
  assumes "0 < nf" and "0 < nr"
  shows "draw_pair nf nr (\<lambda>i. 0) = None"
proof -
  have r: "randint (\<lambda>i. 0) nf = Inr (0, \<lambda>i. 0)" using assms(1) by (simp add: randint_def)
  have "draw_reverse 0 nr (\<lambda>i. 0) = None"
    using draw_reverse_terminates_iff[OF assms(2), of 0 "\<lambda>i. 0"] by simp
  with r show ?thesis by (simp add: draw_pair_def)
qed

lemma transfer_loop_never_returns:
  assumes "fp \<noteq> []" and "rp \<noteq> []" and "\<forall>c \<in> set cells. fst c < 26"
    and "length fp * length rp - min (length fp) (length rp) < length cells"
  shows "transfer_loop fp rp vol cells g = None"
proof (cases "transfer_loop fp rp vol cells g")
  case None
  then show ?thesis .
next
  case (Some x)
  show ?thesis
  proof (cases x)
    case (Inl e)
    with Some transfer_loop_err[OF _ assms(1,2,3)] show ?thesis by blast
  next
    case (Inr st)
    with Some transfer_loop_capacity[of fp rp vol cells g st] assms(4) show ?thesis by simp
  qed
qed

lemma transfer_loop_empty_pool:
  assumes "fp = [] \<or> rp = []"
  shows "transfer_loop fp rp vol cells g = Some (Inl ValueError)"
proof (cases "fp = []")
  case True
  then show ?thesis by (simp add: transfer_loop_def draw_pair_def randint_def bind_res_def)
next
  case False
  with assms have rp: "rp = []" by simp
  have "draw_reverse f 0 g' = Some (Inl ValueError)" for f g'
    by (subst draw_reverse.simps) (simp add: randint_def)
  with False rp show ?thesis
    by (simp add: transfer_loop_def draw_pair_def randint_def bind_res_def)
qed

lemma plate_cells_rows: "\<forall>c \<in> set plate_cells. fst c < 26"
  by (auto simp: plate_cells_def)

lemma plate_cells_length: "length plate_cells = 384"
  by (simp add: plate_cells_def)

lemma generate_transfer_df_never_returns:
  assumes "sample_primers self 12 = (fp, rp)" and "fp \<noteq> []" and "rp \<noteq> []"
    and "length fp * length rp - min (length fp) (length rp) < 384"
    and "use_seed \<longrightarrow> 0 \<le> randseed self \<and> randseed self < 2 ^ 32"
  shows "generate_transfer_df np_seed self vol use_seed g0 = None"
proof -
  have loop: "transfer_loop fp rp vol plate_cells g = None" for g
    by (rule transfer_loop_never_returns[OF assms(2,3) plate_cells_rows])
       (simp add: plate_cells_length assms(4))
  show ?thesis
  proof (cases use_seed)
    case True
    with assms(5) have "random_seed np_seed (randseed self) = Inr (np_seed (randseed self))"
      by (simp add: random_seed_def)
    with True assms(1) loop show ?thesis
      by (simp add: generate_transfer_df_def bind_res_def)
  next
    case False
    with assms(1) loop show ?thesis
      by (simp add: generate_transfer_df_def bind_res_def)
  qed
qed

lemma slice_from_empty: "int (length xs) \<le> k \<Longrightarrow> slice_from k xs = []"
  by (simp add: slice_from_def)

lemma generate_transfer_df_empty_pool:
  assumes "fst (sample_primers self 12) = [] \<or> snd (sample_primers self 12) = []"
    and "use_seed \<longrightarrow> 0 \<le> randseed self \<and> randseed self < 2 ^ 32"
  shows "generate_transfer_df np_seed self vol use_seed g0 = Some (Inl ValueError)"
proof -
  obtain fp rp where sp: "sample_primers self 12 = (fp, rp)" by (cases "sample_primers self 12")
  with assms(1) have e: "fp = [] \<or> rp = []" by simp
  have loop: "transfer_loop fp rp vol plate_cells g = Some (Inl ValueError)" for g
    by (rule transfer_loop_empty_pool[OF e])
  show ?thesis
  proof (cases use_seed)
    case True
    with assms(2) have "random_seed np_seed (randseed self) = Inr (np_seed (randseed self))"
      by (simp add: random_seed_def)
    with True sp loop show ?thesis
      by (simp add: generate_transfer_df_def bind_res_def)
  next
    case False
    with sp loop show ?thesis
      by (simp add: generate_transfer_df_def bind_res_def)
  qed
qed

subsection \<open>Slices of the grid\<close>

lemma slice_even_map:
  "slice_even xs = map (\<lambda>i. xs ! (2 * i)) [0..<Suc (length xs) div 2]"
proof (induction xs rule: slice_even.induct)
  case 1
  show ?case by simp
next
  case (2 x)
  show ?case by simp
next
  case (3 x y xs)
  have "[0..<Suc (length (x # y # xs)) div 2] = 0 # map Suc [0..<Suc (length xs) div 2]"
    by (simp add: upt_conv_Cons map_Suc_upt del: upt_Suc)
  then show ?case using 3 by (simp add: comp_def del: upt_Suc)
qed

lemma slice_odd_map:
  "slice_odd xs = map (\<lambda>i. xs ! Suc (2 * i)) [0..<length xs div 2]"
proof (cases xs)
  case Nil
  then show ?thesis by (simp add: slice_odd_def)
next
  case (Cons x ys)
  then show ?thesis by (simp add: slice_odd_def slice_even_map)
qed

lemma length_slice_even: "length (slice_even xs) = Suc (length xs) div 2"
  by (simp add: slice_even_map)

lemma length_slice_odd: "length (slice_odd xs) = length xs div 2"
  by (simp add: slice_odd_map)

lemma length_concat_grid:
  "length (concat (map (\<lambda>i. map (f i) [0..<c]) [0..<r])) = r * c"
  by (induction r) simp_all

lemma split_forward:
  assumes "\<forall>row \<in> set wells. length row = C" and "even (length wells)" and "even C"
  shows "fst (split_primers_from_grid wells) =
           concat (map (\<lambda>i. map (\<lambda>j. wells ! (2 * i) ! (2 * j)) [0..<C div 2])
                       [0..<length wells div 2])"
proof -
  have half: "Suc (length wells) div 2 = length wells div 2" using assms(2) by presburger
  have halfC: "Suc C div 2 = C div 2" using assms(3) by presburger
  have "map slice_even (slice_even wells) =
          map (\<lambda>i. map (\<lambda>j. wells ! (2 * i) ! (2 * j)) [0..<C div 2]) [0..<length wells div 2]"
  proof -
    have "map slice_even (slice_even wells) =
            map (\<lambda>i. slice_even (wells ! (2 * i))) [0..<length wells div 2]"
      by (simp add: slice_even_map[of wells] half comp_def)
    also have "\<dots> = map (\<lambda>i. map (\<lambda>j. wells ! (2 * i) ! (2 * j)) [0..<C div 2])
                         [0..<length wells div 2]"
    proof (rule map_cong[OF refl])
      fix i assume "i \<in> set [0..<length wells div 2]"
      then have "2 * i < length wells" by auto
      then have "length (wells ! (2 * i)) = C" using assms(1) by simp
      then show "slice_even (wells ! (2 * i)) = map (\<lambda>j. wells ! (2 * i) ! (2 * j)) [0..<C div 2]"
        by (subst slice_even_map) (simp add: halfC)
    qed
    finally show ?thesis .
  qed
  then show ?thesis by (simp add: split_primers_from_grid_def)
qed

lemma split_reverse:
  assumes "\<forall>row \<in> set wells. length row = C"
  shows "snd (split_primers_from_grid wells) =
           concat (map (\<lambda>i. map (\<lambda>j. wells ! (2 * i + 1) ! (2 * j + 1)) [0..<C div 2])
                       [0..<length wells div 2])"
proof -
  have "map slice_odd (slice_odd wells) =
            map (\<lambda>i. slice_odd (wells ! (2 * i + 1))) [0..<length wells div 2]"
    by (simp add: slice_odd_map[of wells] comp_def)
  also have "\<dots> = map (\<lambda>i. map (\<lambda>j. wells ! (2 * i + 1) ! (2 * j + 1)) [0..<C div 2])
                         [0..<length wells div 2]"
  proof (rule map_cong[OF refl])
    fix i assume "i \<in> set [0..<length wells div 2]"
    then have "2 * i + 1 < length wells" by auto
    then have "length (wells ! (2 * i + 1)) = C" using assms(1) by simp
    then show "slice_odd (wells ! (2 * i + 1)) =
                 map (\<lambda>j. wells ! (2 * i + 1) ! (2 * j + 1)) [0..<C div 2]"
      by (subst slice_odd_map) simp
  qed
  finally show ?thesis by (simp add: split_primers_from_grid_def)
qed

subsection \<open>The pattern and the join\<close>

lemma dropWhile_keeps_stop:
  "\<not> P c \<Longrightarrow> \<exists>zs. dropWhile P (pre @ c # ds) = zs @ c # ds"
proof (induction pre)
  case Nil
  then show ?case by auto
next
  case (Cons p pre)
  then obtain zs where "dropWhile P (pre @ c # ds) = zs @ c # ds" by blast
  then show ?case
    by (cases "P p") (auto intro: exI[of _ "p # pre"])
qed

lemma match_here_last:
  assumes "\<not> is_decimal c" and "list_all is_decimal ds"
  shows "match_here is_decimal (c # ds) = Some c"
proof -
  have "dropWhile is_decimal ds = []" using assms(2) by (simp add: list_all_iff)
  with assms(1) show ?thesis by (simp add: match_here_def at_dollar_def)
qed

lemma match_here_earlier:
  assumes "\<not> is_decimal c" and "c \<noteq> 10"
  shows "match_here is_decimal (p # pre @ c # ds) = None"
proof -
  from dropWhile_keeps_stop[of is_decimal c pre ds] assms(1)
  obtain zs where z: "dropWhile is_decimal (pre @ c # ds) = zs @ c # ds" by blast
  have "\<not> at_dollar (zs @ c # ds)"
    using assms(2) by (cases zs) (auto simp: at_dollar_def)
  with z show ?thesis by (simp add: match_here_def)
qed

lemma extract_direction_last_non_digit:
  assumes "\<not> is_decimal c" and "c \<noteq> 10" and "list_all is_decimal ds"
  shows "extract_direction is_decimal (pre @ c # ds) = Some c"
proof (induction pre)
  case Nil
  show ?case using match_here_last[of is_decimal c ds] assms(1,3) by simp
next
  case (Cons p pre)
  show ?case using match_here_earlier[of is_decimal c p pre ds] assms(1,2) Cons.IH by simp
qed

lemma extract_direction_digits_only:
  "list_all is_decimal s \<Longrightarrow> extract_direction is_decimal s = None"
  by (induction s) (simp_all add: match_here_def)

lemma remove_spaces_without_whitespace:
  assumes "\<forall>c \<in> set s. is_whitespace c \<longrightarrow> c = 32"
  shows "remove_spaces s = without_whitespace s"
proof -
  have w: "is_whitespace 32" by (simp add: is_whitespace_def)
  have "filter (\<lambda>c. c \<noteq> 32) s = filter (\<lambda>c. \<not> is_whitespace c) s"
  proof (rule filter_cong[OF refl])
    fix x assume "x \<in> set s"
    with assms w show "(x \<noteq> 32) = (\<not> is_whitespace x)" by metis
  qed
  then show ?thesis by (simp add: remove_spaces_def without_whitespace_def)
qed

lemma join_member:
  assumes "j \<in> set (join_transfer_with_barcodes is_decimal df_transfer df_barcodes)"
  shows "\<exists>t \<in> set df_transfer. \<exists>b \<in> set df_barcodes. storage b = source_well t
           \<and> j = \<lparr>joined_destination_well = destination_well t,
                   joined_sequence = remove_spaces (sequence b),
                   direction = extract_direction is_decimal (sequence_name b)\<rparr>"
  using assms unfolding join_transfer_with_barcodes_def by auto

lemma codepoints_examples:
  "codepoints ''primerF03'' = [112, 114, 105, 109, 101, 114, 70, 48, 51]"
  "codepoints ''AC GT'' = [65, 67, 32, 71, 84]"
  "codepoints ''ACGT'' = [65, 67, 71, 84]"
  by (simp_all add: codepoints_def)

lemma unicode_digit_example:
  "extract_direction sample_decimal [70, 1635] = Some 70"
  by (simp add: match_here_def sample_decimal_def at_dollar_def)

subsection \<open>Runs that return and runs that do not\<close>

lemma draw_pair_lucky:
  assumes "g k < nf" and "g (Suc k) < nr" and "g (Suc k) \<noteq> g k"
  shows "draw_pair nf nr (shift k g) = Some (Inr ((g k, g (Suc k)), shift (Suc (Suc k)) g))"
proof -
  have nf: "0 < nf" and nr: "0 < nr" using assms by auto
  have r1: "randint (shift k g) nf = Inr (g k, shift (Suc k) g)"
    using randint_shift[OF nf, of k g] assms(1) by simp
  have r2: "randint (shift (Suc k) g) nr = Inr (g (Suc k), shift (Suc (Suc k)) g)"
    using randint_shift[OF nr, of "Suc k" g] assms(2) by simp
  have "draw_reverse (g k) nr (shift (Suc k) g)
          = Some (Inr (g (Suc k), shift (Suc (Suc k)) g))"
    by (subst draw_reverse.simps) (simp add: r2 assms(3))
  with r1 show ?thesis by (simp add: draw_pair_def)
qed

lemma stream_of_pairs_at:
  assumes "m < length ps"
  shows "stream_of_pairs ps (2 * m) = fst (ps ! m)"
    and "stream_of_pairs ps (Suc (2 * m)) = snd (ps ! m)"
  using assms by (simp_all add: stream_of_pairs_def)

lemma draw_pair_stream_of_pairs:
  assumes "m < length ps" and "valid_pair nf nr (ps ! m)"
  shows "draw_pair nf nr (shift (2 * m) (stream_of_pairs ps))
           = Some (Inr (ps ! m, shift (2 * Suc m) (stream_of_pairs ps)))"
proof -
  let ?g = "stream_of_pairs ps"
  have a: "?g (2 * m) < nf" and b: "?g (Suc (2 * m)) < nr" and c: "?g (Suc (2 * m)) \<noteq> ?g (2 * m)"
    using assms(2) by (auto simp: stream_of_pairs_at[OF assms(1)] valid_pair_def)
  from draw_pair_lucky[OF a b c] show ?thesis
    by (simp add: stream_of_pairs_at[OF assms(1)])
qed

lemma cell_step_accept:
  assumes "resample (covered_list st) (length fp) (length rp) (currtup st) (rng_state st)
             = Some (Inr (tup, g'))"
    and "valid_pair (length fp) (length rp) tup" and "fst cell < 26"
  shows "\<exists>ls. cell_step fp rp vol cell st =
           Some (Inr \<lparr>currtup = tup, covered_list = covered_list st @ [tup],
                      lines = ls, rng_state = g'\<rparr>)"
  using assms
  by (simp add: cell_step_def bind_res_def dest_label_def getitem_def valid_pair_def
      ascii_uppercase_def)

lemma for_cells_lucky:
  assumes "distinct ps" and "\<forall>p \<in> set ps. valid_pair (length fp) (length rp) p"
    and "\<forall>c \<in> set cs. fst c < 26"
    and "m + length cs \<le> length ps"
    and "covered_list st = take m ps" and "currtup st \<in> set (take m ps)"
    and "rng_state st = shift (2 * m) (stream_of_pairs ps)"
  shows "\<exists>st'. for_cells fp rp vol cs st = Some (Inr st')"
  using assms(3-)
proof (induction cs arbitrary: m st)
  case Nil
  show ?case by simp
next
  case (Cons c cs)
  let ?g = "stream_of_pairs ps"
  from Cons.prems(2) have m: "m < length ps" by simp
  then have v: "valid_pair (length fp) (length rp) (ps ! m)" using assms(2) by simp
  have new: "ps ! m \<notin> set (take m ps)"
  proof
    assume "ps ! m \<in> set (take m ps)"
    then obtain i where "i < m" "take m ps ! i = ps ! m"
      using m by (auto simp: in_set_conv_nth)
    then have "ps ! i = ps ! m" by simp
    with assms(1) \<open>i < m\<close> m show False by (simp add: nth_eq_iff_index_eq)
  qed
  have "resample (take m ps) (length fp) (length rp) (ps ! m) (shift (2 * Suc m) ?g)
          = Some (Inr (ps ! m, shift (2 * Suc m) ?g))"
    by (subst resample.simps) (simp add: new)
  then have rs: "resample (covered_list st) (length fp) (length rp) (currtup st) (rng_state st)
          = Some (Inr (ps ! m, shift (2 * Suc m) ?g))"
    using Cons.prems(3,4,5) draw_pair_stream_of_pairs[OF m v]
    by (subst resample.simps) simp
  from Cons.prems(1) have row: "fst c < 26" by simp
  from cell_step_accept[OF rs v row] obtain ls where
    cs1: "cell_step fp rp vol c st =
           Some (Inr \<lparr>currtup = ps ! m, covered_list = covered_list st @ [ps ! m],
                      lines = ls, rng_state = shift (2 * Suc m) ?g\<rparr>)"
    by blast
  let ?st1 = "\<lparr>currtup = ps ! m, covered_list = covered_list st @ [ps ! m],
                      lines = ls, rng_state = shift (2 * Suc m) ?g\<rparr>"
  have tk: "take (Suc m) ps = take m ps @ [ps ! m]" using m by (simp add: take_Suc_conv_app_nth)
  have "\<exists>st'. for_cells fp rp vol cs ?st1 = Some (Inr st')"
  proof (rule Cons.IH[of "Suc m"])
    show "\<forall>c \<in> set cs. fst c < 26" using Cons.prems(1) by simp
    show "Suc m + length cs \<le> length ps" using Cons.prems(2) by simp
    show "covered_list ?st1 = take (Suc m) ps" using Cons.prems(3) tk by simp
    show "currtup ?st1 \<in> set (take (Suc m) ps)" using tk by simp
    show "rng_state ?st1 = shift (2 * Suc m) ?g" by simp
  qed
  with cs1 show ?case by (simp add: bind_res_def)
qed

lemma transfer_loop_lucky:
  assumes "distinct ps" and "\<forall>p \<in> set ps. valid_pair (length fp) (length rp) p"
    and "\<forall>c \<in> set cells. fst c < 26"
    and "length cells \<le> length ps" and "cells \<noteq> []"
  shows "\<exists>st. transfer_loop fp rp vol cells (stream_of_pairs ps) = Some (Inr st)"
proof -
  let ?g = "stream_of_pairs ps"
  obtain c cs where cells: "cells = c # cs" using assms(5) by (cases cells) auto
  have m0: "0 < length ps" using assms(4) cells by (cases ps) auto
  then have v0: "valid_pair (length fp) (length rp) (ps ! 0)" using assms(2) by simp
  have dp: "draw_pair (length fp) (length rp) ?g = Some (Inr (ps ! 0, shift 2 ?g))"
    using draw_pair_stream_of_pairs[OF m0 v0] by (simp add: shift_0)
  let ?st0 = "\<lparr>currtup = ps ! 0, covered_list = [], lines = [], rng_state = shift 2 ?g\<rparr>"
  have rs: "resample (covered_list ?st0) (length fp) (length rp) (currtup ?st0) (rng_state ?st0)
          = Some (Inr (ps ! 0, shift 2 ?g))"
    by (subst resample.simps) simp
  have row: "fst c < 26" using assms(3) cells by simp
  from cell_step_accept[OF rs v0 row] obtain ls where
    cs1: "cell_step fp rp vol c ?st0 =
           Some (Inr \<lparr>currtup = ps ! 0, covered_list = [ps ! 0],
                      lines = ls, rng_state = shift 2 ?g\<rparr>)"
    by auto
  let ?st1 = "\<lparr>currtup = ps ! 0, covered_list = [ps ! 0],
                      lines = ls, rng_state = shift 2 ?g\<rparr>"
  have tk: "take (Suc 0) ps = [ps ! 0]" using m0 by (simp add: take_Suc_conv_app_nth)
  have "\<exists>st'. for_cells fp rp vol cs ?st1 = Some (Inr st')"
  proof (rule for_cells_lucky[OF assms(1,2), of cs "Suc 0"])
    show "\<forall>c \<in> set cs. fst c < 26" using assms(3) cells by simp
    show "Suc 0 + length cs \<le> length ps" using assms(4) cells by simp
    show "covered_list ?st1 = take (Suc 0) ps" using tk by simp
    show "currtup ?st1 \<in> set (take (Suc 0) ps)" using tk by simp
    show "rng_state ?st1 = shift (2 * Suc 0) ?g" by simp
  qed
  with cs1 dp show ?thesis by (simp add: transfer_loop_def cells bind_res_def)
qed

lemma enough_valid_pairs:
  assumes "n \<le> nf * nr - min nf nr"
  shows "\<exists>ps. distinct ps \<and> (\<forall>p \<in> set ps. valid_pair nf nr p) \<and> length ps = n"
proof -
  from finite_distinct_list[OF finite_valid_pairs[of nf nr]]
  obtain xs where xs: "set xs = {p. valid_pair nf nr p}" "distinct xs" by blast
  then have "length xs = nf * nr - min nf nr"
    using distinct_card[of xs] card_valid_pairs[of nf nr] by simp
  with assms have n: "n \<le> length xs" by simp
  have "distinct (take n xs)" using xs(2) by simp
  moreover have "\<forall>p \<in> set (take n xs). valid_pair nf nr p"
    using xs(1) by (auto dest: in_set_takeD)
  moreover have "length (take n xs) = n" using n by simp
  ultimately show ?thesis by blast
qed

lemma transfer_loop_can_return:
  assumes "cells \<noteq> []" and "\<forall>c \<in> set cells. fst c < 26"
    and "length cells \<le> length fp * length rp - min (length fp) (length rp)"
  shows "\<exists>g st. transfer_loop fp rp vol cells g = Some (Inr st)"
proof -
  from enough_valid_pairs[OF assms(3)] obtain ps where
    ps: "distinct ps" "\<forall>p \<in> set ps. valid_pair (length fp) (length rp) p"
      "length ps = length cells" by blast
  from transfer_loop_lucky[OF ps(1,2) assms(2) _ assms(1), of vol] ps(3)
  show ?thesis by auto
qed

lemma transfer_loop_stuck:
  assumes "fp \<noteq> []" and "rp \<noteq> []"
    and "\<forall>k. g (Suc k) mod length rp = g 0 mod length fp"
  shows "transfer_loop fp rp vol cells g = None"
proof -
  have nf: "0 < length fp" and nr: "0 < length rp" using assms(1,2) by simp_all
  have r: "randint g (length fp) = Inr (g 0 mod length fp, \<lambda>i. g (Suc i))"
    using nf by (simp add: randint_def)
  have "draw_reverse (g 0 mod length fp) (length rp) (\<lambda>i. g (Suc i)) = None"
    using draw_reverse_terminates_iff[OF nr, of "g 0 mod length fp" "\<lambda>i. g (Suc i)"] assms(3)
    by simp
  with r have "draw_pair (length fp) (length rp) g = None" by (simp add: draw_pair_def)
  then show ?thesis by (simp add: transfer_loop_def bind_res_def)
qed

subsection \<open>The pairs handed out by the random source\<close>

lemma draws_Suc_Inr:
  "draws (Suc m) nf nr g = Some (Inr (qs, g'')) \<longleftrightarrow>
     (\<exists>p g' ps. draw_pair nf nr g = Some (Inr (p, g'))
        \<and> draws m nf nr g' = Some (Inr (ps, g'')) \<and> qs = p # ps)"
  by (auto simp: bind_res_Inr)

lemma draws_valid:
  "draws m nf nr g = Some (Inr (ps, g')) \<Longrightarrow>
     length ps = m \<and> (\<forall>p \<in> set ps. valid_pair nf nr p)"
proof (induction m arbitrary: g ps)
  case 0
  then show ?case by simp
next
  case (Suc m)
  from Suc.prems obtain p g1 rest where
    dp: "draw_pair nf nr g = Some (Inr (p, g1))"
    and dr: "draws m nf nr g1 = Some (Inr (rest, g'))" and ps: "ps = p # rest"
    unfolding draws_Suc_Inr by blast
  from Suc.IH[OF dr] draw_pair_ret[OF dp] ps show ?case by simp
qed

lemma resample_attempts:
  assumes "draws m nf nr g = Some (Inr (qs, g'))"
    and "\<exists>q \<in> set qs. q \<notin> set cov" and "tup \<in> set cov"
  shows "\<exists>i gi. i < length qs
           \<and> resample cov nf nr tup g = Some (Inr (qs ! i, gi))
           \<and> qs ! i \<notin> set cov \<and> set (take i qs) \<subseteq> set cov
           \<and> draws (m - Suc i) nf nr gi = Some (Inr (drop (Suc i) qs, g'))"
  using assms
proof (induction m arbitrary: g qs tup)
  case 0
  then show ?case by simp
next
  case (Suc m)
  from Suc.prems(1) obtain p g1 rest where
    dp: "draw_pair nf nr g = Some (Inr (p, g1))"
    and dr: "draws m nf nr g1 = Some (Inr (rest, g'))" and qs: "qs = p # rest"
    unfolding draws_Suc_Inr by blast
  have step: "resample cov nf nr tup g = resample cov nf nr p g1"
    using Suc.prems(3) dp by (subst resample.simps) simp
  show ?case
  proof (cases "p \<in> set cov")
    case False
    then have "resample cov nf nr p g1 = Some (Inr (p, g1))"
      by (subst resample.simps) simp
    with step False dr qs show ?thesis
      by (intro exI[of _ 0] exI[of _ g1]) simp
  next
    case True
    with Suc.prems(2) qs have "\<exists>q \<in> set rest. q \<notin> set cov" by auto
    from Suc.IH[OF dr this True] obtain i gi where
      i: "i < length rest" "resample cov nf nr p g1 = Some (Inr (rest ! i, gi))"
        "rest ! i \<notin> set cov" "set (take i rest) \<subseteq> set cov"
        "draws (m - Suc i) nf nr gi = Some (Inr (drop (Suc i) rest, g'))"
      by blast
    with step True qs show ?thesis
      by (intro exI[of _ "Suc i"] exI[of _ gi]) simp
  qed
qed

lemma for_cells_returns:
  assumes "draws m (length fp) (length rp) (rng_state st) = Some (Inr (qs, g'))"
    and "currtup st \<in> set (covered_list st)" and "distinct (covered_list st)"
    and "length (covered_list st) + length cells \<le> card (set (covered_list st) \<union> set qs)"
    and "\<forall>c \<in> set cells. fst c < 26"
  shows "\<exists>st'. for_cells fp rp vol cells st = Some (Inr st')"
  using assms
proof (induction cells arbitrary: st m qs)
  case Nil
  show ?case by simp
next
  case (Cons c cs)
  let ?cov = "covered_list st"
  have "card (set ?cov) = length ?cov" using Cons.prems(3) by (rule distinct_card)
  with Cons.prems(4) have "card (set ?cov) < card (set ?cov \<union> set qs)" by simp
  have ex: "\<exists>q \<in> set qs. q \<notin> set ?cov"
  proof (rule ccontr)
    assume "\<not> (\<exists>q \<in> set qs. q \<notin> set ?cov)"
    then have "set ?cov \<union> set qs = set ?cov" by blast
    with \<open>card (set ?cov) < card (set ?cov \<union> set qs)\<close> show False by simp
  qed
  from resample_attempts[OF Cons.prems(1) ex Cons.prems(2)] obtain i gi where
    i: "i < length qs"
    and rs: "resample ?cov (length fp) (length rp) (currtup st) (rng_state st)
               = Some (Inr (qs ! i, gi))"
    and new: "qs ! i \<notin> set ?cov" and old: "set (take i qs) \<subseteq> set ?cov"
    and rest: "draws (m - Suc i) (length fp) (length rp) gi = Some (Inr (drop (Suc i) qs, g'))"
    by blast
  from draws_valid[OF Cons.prems(1)] i
  have v: "valid_pair (length fp) (length rp) (qs ! i)" by simp
  from Cons.prems(5) have row: "fst c < 26" by simp
  from cell_step_accept[OF rs v row] obtain ls where
    cs1: "cell_step fp rp vol c st =
           Some (Inr \<lparr>currtup = qs ! i, covered_list = ?cov @ [qs ! i],
                      lines = ls, rng_state = gi\<rparr>)"
    by blast
  let ?st1 = "\<lparr>currtup = qs ! i, covered_list = ?cov @ [qs ! i], lines = ls, rng_state = gi\<rparr>"
  have "set qs = set (take i qs @ qs ! i # drop (Suc i) qs)"
    using id_take_nth_drop[OF i] by simp
  then have "set qs = set (take i qs) \<union> {qs ! i} \<union> set (drop (Suc i) qs)"
    by simp
  with old have sets: "set (?cov @ [qs ! i]) \<union> set (drop (Suc i) qs) = set ?cov \<union> set qs"
    by auto
  have "\<exists>st'. for_cells fp rp vol cs ?st1 = Some (Inr st')"
  proof (rule Cons.IH[of "m - Suc i" ?st1 "drop (Suc i) qs"])
    show "draws (m - Suc i) (length fp) (length rp) (rng_state ?st1)
            = Some (Inr (drop (Suc i) qs, g'))" using rest by simp
    show "currtup ?st1 \<in> set (covered_list ?st1)" by simp
    show "distinct (covered_list ?st1)" using Cons.prems(3) new by simp
    show "length (covered_list ?st1) + length cs
            \<le> card (set (covered_list ?st1) \<union> set (drop (Suc i) qs))"
      using Cons.prems(4) sets by simp
    show "\<forall>c \<in> set cs. fst c < 26" using Cons.prems(5) by simp
  qed
  with cs1 show ?case by (simp add: bind_res_def)
qed

lemma transfer_loop_returns:
  assumes "draws m (length fp) (length rp) g = Some (Inr (ps, g'))"
    and "length cells \<le> card (set ps)" and "cells \<noteq> []"
    and "\<forall>c \<in> set cells. fst c < 26"
  shows "\<exists>st. transfer_loop fp rp vol cells g = Some (Inr st)"
proof -
  obtain c cs where cells: "cells = c # cs" using assms(3) by (cases cells) auto
  have "ps \<noteq> []" using assms(2) cells by auto
  with draws_valid[OF assms(1)] obtain m' where m: "m = Suc m'" by (cases m) auto
  from assms(1) obtain p g1 rest where
    dp: "draw_pair (length fp) (length rp) g = Some (Inr (p, g1))"
    and dr: "draws m' (length fp) (length rp) g1 = Some (Inr (rest, g'))"
    and ps: "ps = p # rest"
    unfolding m draws_Suc_Inr by blast
  let ?st0 = "\<lparr>currtup = p, covered_list = [], lines = [], rng_state = g1\<rparr>"
  have rs: "resample (covered_list ?st0) (length fp) (length rp) (currtup ?st0) (rng_state ?st0)
          = Some (Inr (p, g1))"
    by (subst resample.simps) simp
  have v: "valid_pair (length fp) (length rp) p" by (rule draw_pair_ret[OF dp])
  have row: "fst c < 26" using assms(4) cells by simp
  from cell_step_accept[OF rs v row] obtain ls where
    cs1: "cell_step fp rp vol c ?st0 =
           Some (Inr \<lparr>currtup = p, covered_list = [p], lines = ls, rng_state = g1\<rparr>)"
    by auto
  let ?st1 = "\<lparr>currtup = p, covered_list = [p], lines = ls, rng_state = g1\<rparr>"
  have "\<exists>st'. for_cells fp rp vol cs ?st1 = Some (Inr st')"
  proof (rule for_cells_returns[of m' fp rp ?st1 rest g'])
    show "draws m' (length fp) (length rp) (rng_state ?st1) = Some (Inr (rest, g'))"
      using dr by simp
    show "currtup ?st1 \<in> set (covered_list ?st1)" by simp
    show "distinct (covered_list ?st1)" by simp
    show "length (covered_list ?st1) + length cs \<le> card (set (covered_list ?st1) \<union> set rest)"
      using assms(2) cells ps by simp
    show "\<forall>c \<in> set cs. fst c < 26" using assms(4) cells by simp
  qed
  with cs1 dp show ?thesis by (simp add: transfer_loop_def cells bind_res_def)
qed

lemma transfer_loop_returns_fair:
  assumes "fair (length fp) (length rp) g"
    and "length cells \<le> length fp * length rp - min (length fp) (length rp)"
    and "cells \<noteq> []" and "\<forall>c \<in> set cells. fst c < 26"
  shows "\<exists>st. transfer_loop fp rp vol cells g = Some (Inr st)"
proof -
  from assms(1) obtain m ps g' where
    d: "draws m (length fp) (length rp) g = Some (Inr (ps, g'))"
    and all: "\<forall>p. valid_pair (length fp) (length rp) p \<longrightarrow> p \<in> set ps"
    unfolding fair_def by blast
  have "{p. valid_pair (length fp) (length rp) p} \<subseteq> set ps" using all by auto
  then have "card {p. valid_pair (length fp) (length rp) p} \<le> card (set ps)"
    by (rule card_mono[OF finite_set])
  with assms(2) have "length cells \<le> card (set ps)" by (simp add: card_valid_pairs)
  from transfer_loop_returns[OF d this assms(3,4)] show ?thesis .
qed


lemma draws_stream_of_pairs_from:
  assumes "\<forall>p \<in> set ps. valid_pair nf nr p" and "k + n = length ps"
  shows "draws n nf nr (shift (2 * k) (stream_of_pairs ps))
           = Some (Inr (drop k ps, shift (2 * length ps) (stream_of_pairs ps)))"
  using assms(2)
proof (induction n arbitrary: k)
  case 0
  then show ?case by simp
next
  case (Suc n)
  then have k: "k < length ps" by simp
  then have v: "valid_pair nf nr (ps ! k)" using assms(1) by simp
  have "draws n nf nr (shift (2 * Suc k) (stream_of_pairs ps))
           = Some (Inr (drop (Suc k) ps, shift (2 * length ps) (stream_of_pairs ps)))"
    by (rule Suc.IH) (use Suc.prems in simp)
  with draw_pair_stream_of_pairs[OF k v] k show ?case
    by (simp add: bind_res_def Cons_nth_drop_Suc)
qed

lemma draws_stream_of_pairs:
  assumes "\<forall>p \<in> set ps. valid_pair nf nr p"
  shows "draws (length ps) nf nr (stream_of_pairs ps)
           = Some (Inr (ps, shift (2 * length ps) (stream_of_pairs ps)))"
  using draws_stream_of_pairs_from[OF assms, of 0 "length ps"] by (simp add: shift_0)

lemma draws_append:
  assumes "draws a nf nr g = Some (Inr (xs, g1))" and "draws b nf nr g1 = Some (Inr (ys, g2))"
  shows "draws (a + b) nf nr g = Some (Inr (xs @ ys, g2))"
  using assms(1)
proof (induction a arbitrary: g xs)
  case 0
  with assms(2) show ?case by simp
next
  case (Suc a)
  from Suc.prems obtain p g' rest where
    dp: "draw_pair nf nr g = Some (Inr (p, g'))"
    and dr: "draws a nf nr g' = Some (Inr (rest, g1))" and xs: "xs = p # rest"
    unfolding draws_Suc_Inr by blast
  from Suc.IH[OF dr] dp xs show ?case by (simp add: bind_res_def)
qed

lemma resample_consumes_aux:
  assumes "resample cov nf nr tup g = Some x"
  shows "case x of Inl e \<Rightarrow> True
      | Inr (tup', gf) \<Rightarrow>
          \<exists>n qs. draws n nf nr g = Some (Inr (qs, gf)) \<and> tup' \<in> insert tup (set qs)"
proof (rule resample.raw_induct
    [where P = "\<lambda>cov nf nr tup g x. case x of Inl e \<Rightarrow> True
      | Inr (tup', gf) \<Rightarrow>
          \<exists>n qs. draws n nf nr g = Some (Inr (qs, gf)) \<and> tup' \<in> insert tup (set qs)",
     OF _ assms])
  fix rs cov nf nr tup g x
  assume IH: "\<And>cov nf nr tup g x. rs cov nf nr tup g = Some x \<Longrightarrow>
      (case x of Inl e \<Rightarrow> True
      | Inr (tup', gf) \<Rightarrow>
          \<exists>n qs. draws n nf nr g = Some (Inr (qs, gf)) \<and> tup' \<in> insert tup (set qs))"
    and step: "(if tup \<in> set cov then
        (case draw_pair nf nr g of
           None \<Rightarrow> None
         | Some (Inl e) \<Rightarrow> Some (Inl e)
         | Some (Inr (tup, g')) \<Rightarrow> rs cov nf nr tup g')
      else Some (Inr (tup, g))) = Some x"
  show "case x of Inl e \<Rightarrow> True
      | Inr (tup', gf) \<Rightarrow>
          \<exists>n qs. draws n nf nr g = Some (Inr (qs, gf)) \<and> tup' \<in> insert tup (set qs)"
  proof (cases "tup \<in> set cov")
    case False
    with step have x: "x = Inr (tup, g)" by simp
    have "draws 0 nf nr g = Some (Inr ([], g))" by simp
    then have "\<exists>n qs. draws n nf nr g = Some (Inr (qs, g)) \<and> tup \<in> insert tup (set qs)"
      by blast
    then show ?thesis unfolding x by simp
  next
    case True
    show ?thesis
    proof (cases x)
      case (Inl e)
      then show ?thesis by simp
    next
      case (Inr y)
      obtain t' gf' where y: "y = (t', gf')" by (cases y)
      from step True Inr obtain t g1 where
        dp: "draw_pair nf nr g = Some (Inr (t, g1))"
        and r: "rs cov nf nr t g1 = Some x"
        by (auto split: option.splits sum.splits prod.splits)
      from IH[OF r] Inr y obtain n qs where
        d: "draws n nf nr g1 = Some (Inr (qs, gf'))" and m: "t' \<in> insert t (set qs)"
        by auto
      have "draws (Suc n) nf nr g = Some (Inr (t # qs, gf'))"
        using dp d by (simp add: bind_res_def)
      moreover have "t' \<in> insert tup (set (t # qs))" using m by auto
      ultimately have "\<exists>n qs. draws n nf nr g = Some (Inr (qs, gf'))
                         \<and> t' \<in> insert tup (set qs)" by blast
      then show ?thesis unfolding Inr y by simp
    qed
  qed
qed

lemma resample_consumes:
  assumes "resample cov nf nr tup g = Some (Inr (tup', gf))"
  shows "\<exists>n qs. draws n nf nr g = Some (Inr (qs, gf)) \<and> tup' \<in> insert tup (set qs)"
  using resample_consumes_aux[OF assms] by simp

lemma cell_step_resample:
  assumes "cell_step fp rp vol cell st = Some (Inr st')"
  shows "resample (covered_list st) (length fp) (length rp) (currtup st) (rng_state st)
           = Some (Inr (currtup st', rng_state st'))
       \<and> covered_list st' = covered_list st @ [currtup st']"
proof -
  from assms obtain tup g' where
    rs: "resample (covered_list st) (length fp) (length rp) (currtup st) (rng_state st)
           = Some (Inr (tup, g'))"
    and rest: "(case dest_label (fst cell) (snd cell) of
            Inl e \<Rightarrow> Some (Inl e)
          | Inr dest \<Rightarrow>
              (case getitem fp (fst tup) of
                 Inl e \<Rightarrow> Some (Inl e)
               | Inr fw \<Rightarrow>
                   (case getitem rp (snd tup) of
                      Inl e \<Rightarrow> Some (Inl e)
                    | Inr rv \<Rightarrow>
                        Some (Inr \<lparr>currtup = tup,
                                   covered_list = covered_list st @ [tup],
                                   lines = lines st @
                                     [\<lparr>source_well = fw, destination_well = dest,
                                        volume = vol\<rparr>,
                                      \<lparr>source_well = rv, destination_well = dest,
                                        volume = vol\<rparr>],
                                   rng_state = g'\<rparr>)))) = Some (Inr st')"
    unfolding cell_step_def bind_res_Inr by auto
  from rest have "currtup st' = tup \<and> rng_state st' = g'
                    \<and> covered_list st' = covered_list st @ [tup]"
    by (auto split: sum.splits)
  with rs show ?thesis by simp
qed

lemma for_cells_consumes:
  assumes "for_cells fp rp vol cells st = Some (Inr st')"
  shows "\<exists>n qs. draws n (length fp) (length rp) (rng_state st)
                   = Some (Inr (qs, rng_state st'))
           \<and> set (covered_list st') \<subseteq> set (covered_list st) \<union> insert (currtup st) (set qs)
           \<and> currtup st' \<in> insert (currtup st) (set qs)"
  using assms
proof (induction cells arbitrary: st)
  case Nil
  then have "st' = st" by simp
  moreover have "draws 0 (length fp) (length rp) (rng_state st) = Some (Inr ([], rng_state st))"
    by simp
  ultimately show ?case by (auto intro!: exI[of _ 0])
next
  case (Cons c cs)
  from Cons.prems obtain st1 where
    s1: "cell_step fp rp vol c st = Some (Inr st1)"
    and s2: "for_cells fp rp vol cs st1 = Some (Inr st')"
    by (auto simp: bind_res_Inr)
  from cell_step_resample[OF s1] have
    rs: "resample (covered_list st) (length fp) (length rp) (currtup st) (rng_state st)
           = Some (Inr (currtup st1, rng_state st1))"
    and cov: "covered_list st1 = covered_list st @ [currtup st1]" by simp_all
  from resample_consumes[OF rs] obtain a xs where
    da: "draws a (length fp) (length rp) (rng_state st) = Some (Inr (xs, rng_state st1))"
    and ma: "currtup st1 \<in> insert (currtup st) (set xs)" by blast
  from Cons.IH[OF s2] obtain b ys where
    db: "draws b (length fp) (length rp) (rng_state st1) = Some (Inr (ys, rng_state st'))"
    and sb: "set (covered_list st') \<subseteq> set (covered_list st1) \<union> insert (currtup st1) (set ys)"
    and mb: "currtup st' \<in> insert (currtup st1) (set ys)" by blast
  have "draws (a + b) (length fp) (length rp) (rng_state st)
          = Some (Inr (xs @ ys, rng_state st'))"
    by (rule draws_append[OF da db])
  moreover have "set (covered_list st')
                   \<subseteq> set (covered_list st) \<union> insert (currtup st) (set (xs @ ys))"
    using sb cov ma by auto
  moreover have "currtup st' \<in> insert (currtup st) (set (xs @ ys))"
    using mb ma by auto
  ultimately show ?case by blast
qed

lemma transfer_loop_consumes:
  assumes "transfer_loop fp rp vol cells g = Some (Inr st)"
  shows "\<exists>m ps g'. draws m (length fp) (length rp) g = Some (Inr (ps, g'))
           \<and> length cells \<le> card (set ps)"
proof -
  from assms obtain p g1 where
    dp: "draw_pair (length fp) (length rp) g = Some (Inr (p, g1))"
    and fc: "for_cells fp rp vol cells
               \<lparr>currtup = p, covered_list = [], lines = [], rng_state = g1\<rparr> = Some (Inr st)"
    unfolding transfer_loop_def bind_res_Inr by auto
  from for_cells_consumes[OF fc] obtain n qs where
    d: "draws n (length fp) (length rp) g1 = Some (Inr (qs, rng_state st))"
    and sub: "set (covered_list st) \<subseteq> insert p (set qs)" by auto
  have d': "draws (Suc n) (length fp) (length rp) g = Some (Inr (p # qs, rng_state st))"
    using dp d by (simp add: bind_res_def)
  from transfer_loop_ret[OF assms] have
    "length (covered_list st) = length cells" "distinct (covered_list st)" by auto
  then have "length cells = card (set (covered_list st))" by (simp add: distinct_card)
  also have "\<dots> \<le> card (set (p # qs))"
    by (rule card_mono) (use sub in auto)
  finally show ?thesis using d' by blast
qed

lemma transfer_loop_returns_iff:
  assumes "cells \<noteq> []" and "\<forall>c \<in> set cells. fst c < 26"
  shows "(\<exists>st. transfer_loop fp rp vol cells g = Some (Inr st)) \<longleftrightarrow>
         (\<exists>m ps g'. draws m (length fp) (length rp) g = Some (Inr (ps, g'))
            \<and> length cells \<le> card (set ps))"
  using transfer_loop_consumes transfer_loop_returns[OF _ _ assms] by blast

lemma resample_after_rejections:
  assumes "draws n nf nr w = Some (Inr (qs, w1))" and "set qs \<subseteq> set cov"
    and "tup \<in> set cov"
    and "draw_pair nf nr w1 = Some (Inr (q, w2))" and "q \<notin> set cov"
  shows "resample cov nf nr tup w = Some (Inr (q, w2))"
  using assms(1,2,3)
proof (induction n arbitrary: w qs tup)
  case 0
  then have w: "w1 = w" by simp
  have "resample cov nf nr q w2 = Some (Inr (q, w2))"
    using assms(5) by (subst resample.simps) simp
  with 0(3) assms(4) w show ?case by (subst resample.simps) simp
next
  case (Suc n)
  from Suc.prems(1) obtain p w' rest where
    dp: "draw_pair nf nr w = Some (Inr (p, w'))"
    and dr: "draws n nf nr w' = Some (Inr (rest, w1))" and qs: "qs = p # rest"
    unfolding draws_Suc_Inr by blast
  from Suc.prems(2) qs have p: "p \<in> set cov" and r: "set rest \<subseteq> set cov" by auto
  from Suc.IH[OF dr r p] dp Suc.prems(3) show ?case
    by (subst resample.simps) simp
qed

lemma fair_all_pairs_3:
  "fair 3 3 (stream_of_pairs [(0, 1), (0, 2), (1, 0), (1, 2), (2, 0), (2, 1)])"
proof -
  let ?six = "[(0::nat, 1::nat), (0, 2), (1, 0), (1, 2), (2, 0), (2, 1)]"
  have v: "\<forall>p \<in> set ?six. valid_pair 3 3 p" by (simp add: valid_pair_def)
  have d: "draws (length ?six) 3 3 (stream_of_pairs ?six)
             = Some (Inr (?six, shift (2 * length ?six) (stream_of_pairs ?six)))"
    by (rule draws_stream_of_pairs[OF v])
  have all: "\<forall>p. valid_pair 3 3 p \<longrightarrow> p \<in> set ?six"
  proof (intro allI impI)
    fix p :: "nat \<times> nat" assume vp: "valid_pair 3 3 p"
    obtain a b where p: "p = (a, b)" by (cases p)
    from vp p have "a < 3" "b < 3" "a \<noteq> b" by (simp_all add: valid_pair_def)
    then have "(a = 0 \<or> a = 1 \<or> a = 2) \<and> (b = 0 \<or> b = 1 \<or> b = 2) \<and> a \<noteq> b"
      by arith
    then show "p \<in> set ?six" unfolding p by auto
  qed
  from d all show ?thesis unfolding fair_def by blast
qed

subsection \<open>Continuing a run, and the pool of one reverse primer\<close>

lemma set_all_pairs: "p \<in> set (all_pairs nf nr) \<longleftrightarrow> valid_pair nf nr p"
  by (cases p) (auto simp: all_pairs_def valid_pair_def)

lemma fair_all_pairs: "fair nf nr (stream_of_pairs (all_pairs nf nr))"
proof -
  let ?ps = "all_pairs nf nr"
  have v: "\<forall>p \<in> set ?ps. valid_pair nf nr p" by (simp add: set_all_pairs)
  have d: "draws (length ?ps) nf nr (stream_of_pairs ?ps)
             = Some (Inr (?ps, shift (2 * length ?ps) (stream_of_pairs ?ps)))"
    by (rule draws_stream_of_pairs[OF v])
  have all: "\<forall>p. valid_pair nf nr p \<longrightarrow> p \<in> set ?ps" by (simp add: set_all_pairs)
  from d all show ?thesis unfolding fair_def by blast
qed

lemma fair_step:
  assumes "draw_pair nf nr g = Some (Inr (p, g1))" and "fair nf nr g1"
  shows "fair nf nr g"
proof -
  from assms(2) obtain m ps g2 where
    d: "draws m nf nr g1 = Some (Inr (ps, g2))"
    and a: "\<forall>q. valid_pair nf nr q \<longrightarrow> q \<in> set ps"
    unfolding fair_def by blast
  from assms(1) d have "draws (Suc m) nf nr g = Some (Inr (p # ps, g2))"
    unfolding draws_Suc_Inr by blast
  moreover from a have "\<forall>q. valid_pair nf nr q \<longrightarrow> q \<in> set (p # ps)" by simp
  ultimately show ?thesis unfolding fair_def by blast
qed

lemma prepend_Nil: "prepend [] g = g"
  by (simp add: prepend_def)

lemma shift_prepend:
  "k \<le> length xs \<Longrightarrow> shift k (prepend xs g) = prepend (drop k xs) g"
  by (rule ext) (auto simp: shift_def prepend_def ac_simps)

lemma prepend_nth: "i < length xs \<Longrightarrow> prepend xs g i = xs ! i"
  by (simp add: prepend_def)

lemma prepend_append: "prepend (xs @ ys) g = prepend xs (prepend ys g)"
  by (rule ext) (auto simp: prepend_def nth_append)

lemma draw_pair_prepend:
  assumes "0 < nf" and "0 < nr" and "k < length ys" and "ys ! k mod nr \<noteq> x mod nf"
    and "\<forall>i < k. ys ! i mod nr = x mod nf"
  shows "draw_pair nf nr (prepend (x # ys) g)
           = Some (Inr ((x mod nf, ys ! k mod nr), prepend (drop (Suc k) ys) g))"
proof -
  let ?h = "prepend (x # ys) g"
  have r: "randint ?h nf = Inr (x mod nf, prepend ys g)"
    using randint_shift[OF assms(1), of 0 ?h] shift_prepend[of 1 "x # ys" g]
    by (simp add: shift_0 prepend_def)
  have k: "prepend ys g k mod nr \<noteq> x mod nf" using assms(3,4) by (simp add: prepend_def)
  have lt: "\<forall>i < k. prepend ys g i mod nr = x mod nf"
    using assms(3,5) by (simp add: prepend_def)
  have "draw_reverse (x mod nf) nr (prepend ys g)
          = Some (Inr (prepend ys g k mod nr, shift (Suc k) (prepend ys g)))"
    by (rule draw_reverse_returns[OF assms(2) k lt])
  moreover have "shift (Suc k) (prepend ys g) = prepend (drop (Suc k) ys) g"
    using assms(3) by (simp add: shift_prepend)
  moreover have "prepend ys g k = ys ! k" using assms(3) by (simp add: prepend_def)
  ultimately show ?thesis using r by (simp add: draw_pair_def)
qed

lemma fair_continuation:
  assumes "0 < nf" and "2 \<le> nr"
  shows "\<exists>g. fair nf nr (prepend xs g)"
proof (induction xs rule: length_induct)
  case (1 xs)
  have nr: "0 < nr" using assms(2) by simp
  show ?case
  proof (cases xs)
    case Nil
    have "fair nf nr (prepend [] (stream_of_pairs (all_pairs nf nr)))"
      unfolding prepend_Nil by (rule fair_all_pairs)
    with Nil show ?thesis by blast
  next
    case (Cons x ys)
    let ?f = "x mod nf"
    show ?thesis
    proof (cases "\<exists>k < length ys. ys ! k mod nr \<noteq> ?f")
      case True
      define k where "k = (LEAST k. k < length ys \<and> ys ! k mod nr \<noteq> ?f)"
      from True have kk: "k < length ys \<and> ys ! k mod nr \<noteq> ?f"
        unfolding k_def by (rule LeastI_ex)
      have least: "\<forall>i < k. ys ! i mod nr = ?f"
      proof (intro allI impI)
        fix i assume i: "i < k"
        then have "\<not> (i < length ys \<and> ys ! i mod nr \<noteq> ?f)"
          unfolding k_def by (rule not_less_Least)
        moreover from i kk have "i < length ys" by simp
        ultimately show "ys ! i mod nr = ?f" by blast
      qed
      have "length (drop (Suc k) ys) < length xs" using Cons by simp
      with 1 obtain g where fg: "fair nf nr (prepend (drop (Suc k) ys) g)" by blast
      have "draw_pair nf nr (prepend (x # ys) g)
              = Some (Inr ((?f, ys ! k mod nr), prepend (drop (Suc k) ys) g))"
        using draw_pair_prepend[OF assms(1) nr _ _ least] kk by blast
      from fair_step[OF this fg] Cons show ?thesis by blast
    next
      case False
      define r0 :: nat where "r0 = (if ?f = 0 then 1 else 0)"
      have r0: "r0 mod nr \<noteq> ?f" using assms(2) by (simp add: r0_def)
      let ?g = "stream_of_pairs (all_pairs nf nr)"
      let ?zs = "ys @ [r0]"
      have a: "length ys < length ?zs" by simp
      have b: "?zs ! length ys mod nr \<noteq> ?f" using r0 by simp
      have c: "\<forall>i < length ys. ?zs ! i mod nr = ?f" using False by (simp add: nth_append)
      have "draw_pair nf nr (prepend (x # ?zs) ?g)
              = Some (Inr ((?f, ?zs ! length ys mod nr), prepend (drop (Suc (length ys)) ?zs) ?g))"
        by (rule draw_pair_prepend[OF assms(1) nr a b c])
      then have "draw_pair nf nr (prepend (x # ?zs) ?g)
              = Some (Inr ((?f, ?zs ! length ys mod nr), ?g))"
        by (simp add: prepend_Nil)
      from fair_step[OF this fair_all_pairs]
      have "fair nf nr (prepend (x # ?zs) ?g)" .
      moreover have "prepend (x # ?zs) ?g = prepend xs (prepend [r0] ?g)"
        using Cons prepend_append[of xs "[r0]" ?g] by simp
      ultimately show ?thesis by metis
    qed
  qed
qed

lemma transfer_loop_can_always_return:
  assumes "fp \<noteq> []" and "2 \<le> length rp" and "cells \<noteq> []" and "\<forall>c \<in> set cells. fst c < 26"
    and "length cells \<le> length fp * length rp - min (length fp) (length rp)"
  shows "\<exists>g st. transfer_loop fp rp vol cells (prepend xs g) = Some (Inr st)"
proof -
  have "0 < length fp" using assms(1) by simp
  from fair_continuation[OF this assms(2), of xs] obtain g where
    "fair (length fp) (length rp) (prepend xs g)" ..
  from transfer_loop_returns_fair[OF this assms(5,3,4)] show ?thesis by blast
qed

lemma transfer_loop_single_reverse:
  assumes "fp \<noteq> []" and "length rp = 1" and "g 0 mod length fp = 0"
  shows "transfer_loop fp rp vol cells g = None"
proof (rule transfer_loop_stuck[OF assms(1)])
  show "rp \<noteq> []" using assms(2) by auto
  show "\<forall>k. g (Suc k) mod length rp = g 0 mod length fp" using assms(2,3) by simp
qed

lemma generate_transfer_df_single_reverse:
  assumes "sample_primers self 12 = (fp, rp)" and "fp \<noteq> []" and "length rp = 1"
    and "use_seed \<longrightarrow> 0 \<le> randseed self \<and> randseed self < 2 ^ 32"
    and "(if use_seed then np_seed (randseed self) else g0) 0 mod length fp = 0"
  shows "generate_transfer_df np_seed self vol use_seed g0 = None"
proof -
  have loop: "transfer_loop fp rp vol plate_cells
                (if use_seed then np_seed (randseed self) else g0) = None"
    using transfer_loop_single_reverse
      [of fp rp "if use_seed then np_seed (randseed self) else g0" vol plate_cells] assms(2,3,5)
    by blast
  show ?thesis
  proof (cases use_seed)
    case True
    with assms(4) have "random_seed np_seed (randseed self) = Inr (np_seed (randseed self))"
      by (simp add: random_seed_def)
    with True assms(1) loop show ?thesis
      by (simp add: generate_transfer_df_def bind_res_def)
  next
    case False
    with assms(1) loop show ?thesis
      by (simp add: generate_transfer_df_def bind_res_def)
  qed
qed

subsection \<open>Uniqueness of the accepted pairs\<close>

text \<open>
  Claim C1. Whenever the engine returns, the pair keys it has recorded are pairwise
  distinct, and after the first \<open>k\<close> destination cells the covered list holds
  exactly \<open>k\<close> keys: the run over the first \<open>k\<close> cells returns as well, and its
  covered list is the first \<open>k\<close> entries of the final one, all different.
\<close>

theorem pair_uniqueness:
  assumes "transfer_loop fp rp vol cells g = Some (Inr st)" and "k \<le> length cells"
  shows "\<exists>sk. transfer_loop fp rp vol (take k cells) g = Some (Inr sk)
           \<and> covered_list sk = take k (covered_list st)
           \<and> length (covered_list sk) = k
           \<and> distinct (covered_list sk)"
proof -
  from transfer_loop_prefix[OF assms] obtain sk where
    sk: "transfer_loop fp rp vol (take k cells) g = Some (Inr sk)"
    and cov: "covered_list sk = take k (covered_list st)"
    by blast
  from transfer_loop_ret[OF sk] assms(2)
  have "length (covered_list sk) = k" "distinct (covered_list sk)" by auto
  with sk cov show ?thesis by blast
qed

theorem pair_uniqueness_witness:
  "\<exists>st sk. transfer_loop [''A13'', ''A15'', ''A17''] [''B14'', ''B16'', ''B18''] 500
               [(0, 0), (0, 1), (1, 0)] (\<lambda>i. i) = Some (Inr st)
         \<and> (2::nat) \<le> length [(0::nat, 0::nat), (0, 1), (1, 0)]
         \<and> transfer_loop [''A13'', ''A15'', ''A17''] [''B14'', ''B16'', ''B18''] 500
               (take 2 [(0, 0), (0, 1), (1, 0)]) (\<lambda>i. i) = Some (Inr sk)
         \<and> covered_list sk = take 2 (covered_list st)
         \<and> length (covered_list sk) = 2
         \<and> distinct (covered_list sk)"
proof -
  have "case transfer_loop [''A13'', ''A15'', ''A17''] [''B14'', ''B16'', ''B18''] 500
               [(0, 0), (0, 1), (1, 0)] (\<lambda>i. i) of Some (Inr st) \<Rightarrow> True | _ \<Rightarrow> False"
    by code_simp
  then obtain st where run:
    "transfer_loop [''A13'', ''A15'', ''A17''] [''B14'', ''B16'', ''B18''] 500
               [(0, 0), (0, 1), (1, 0)] (\<lambda>i. i) = Some (Inr st)"
    by (auto split: option.splits sum.splits)
  have k: "(2::nat) \<le> length [(0::nat, 0::nat), (0, 1), (1, 0)]" by simp
  from pair_uniqueness[OF run k] run k show ?thesis by blast
qed

subsection \<open>Too few pairs for the cells\<close>

text \<open>
  Claim C2, as amended. The code has no capacity check and no error of that kind.
  With both pools non-empty and fewer usable pairs \<open>F * R - min F R\<close> than
  destination cells, the engine never returns: it raises nothing and produces no
  lines, for every random stream. The same holds for \<^verbatim>\<open>generate_transfer_df\<close>
  with its 384 cells.
\<close>

theorem capacity_shortfall_never_returns:
  assumes "fp \<noteq> []" and "rp \<noteq> []" and "\<forall>c \<in> set cells. fst c < 26"
    and "length fp * length rp - min (length fp) (length rp) < length cells"
  shows "transfer_loop fp rp vol cells g = None
       \<and> (sample_primers self 12 = (fp, rp) \<and> cells = plate_cells
            \<and> (use_seed \<longrightarrow> 0 \<le> randseed self \<and> randseed self < 2 ^ 32)
          \<longrightarrow> generate_transfer_df np_seed self vol use_seed g0 = None)"
proof (intro conjI impI)
  show "transfer_loop fp rp vol cells g = None"
    by (rule transfer_loop_never_returns[OF assms])
next
  assume a: "sample_primers self 12 = (fp, rp) \<and> cells = plate_cells
            \<and> (use_seed \<longrightarrow> 0 \<le> randseed self \<and> randseed self < 2 ^ 32)"
  with assms(4) have "length fp * length rp - min (length fp) (length rp) < 384"
    by (simp add: plate_cells_length)
  with a show "generate_transfer_df np_seed self vol use_seed g0 = None"
    using generate_transfer_df_never_returns[OF _ assms(1,2)] by blast
qed

theorem capacity_shortfall_never_returns_witness:
  "[''C1'', ''C3''] \<noteq> ([] :: string list) \<and> [''D2'', ''D4''] \<noteq> ([] :: string list)
   \<and> list_all (\<lambda>c. fst c < 26) plate_cells
   \<and> length [''C1'', ''C3''] * length [''D2'', ''D4'']
        - min (length [''C1'', ''C3'']) (length [''D2'', ''D4'']) < length plate_cells
   \<and> sample_primers
       \<lparr>randseed = 7, grid = [],
        fprimers_full = [''A1'', ''A3'', ''A5'', ''A7'', ''A9'', ''A11'', ''A13'', ''A15'',
                         ''A17'', ''A19'', ''A21'', ''A23'', ''C1'', ''C3''],
        rprimers_full = [''B2'', ''B4'', ''B6'', ''B8'', ''B10'', ''B12'', ''B14'', ''B16'',
                         ''B18'', ''B20'', ''B22'', ''B24'', ''D2'', ''D4'']\<rparr> 12
       = ([''C1'', ''C3''], [''D2'', ''D4''])
   \<and> transfer_loop [''C1'', ''C3''] [''D2'', ''D4''] 500 plate_cells Suc = None
   \<and> generate_transfer_df ((+) \<circ> nat)
       \<lparr>randseed = 7, grid = [],
        fprimers_full = [''A1'', ''A3'', ''A5'', ''A7'', ''A9'', ''A11'', ''A13'', ''A15'',
                         ''A17'', ''A19'', ''A21'', ''A23'', ''C1'', ''C3''],
        rprimers_full = [''B2'', ''B4'', ''B6'', ''B8'', ''B10'', ''B12'', ''B14'', ''B16'',
                         ''B18'', ''B20'', ''B22'', ''B24'', ''D2'', ''D4'']\<rparr>
       500 True Suc = None"
proof -
  let ?self = "\<lparr>randseed = 7, grid = [],
        fprimers_full = [''A1'', ''A3'', ''A5'', ''A7'', ''A9'', ''A11'', ''A13'', ''A15'',
                         ''A17'', ''A19'', ''A21'', ''A23'', ''C1'', ''C3''],
        rprimers_full = [''B2'', ''B4'', ''B6'', ''B8'', ''B10'', ''B12'', ''B14'', ''B16'',
                         ''B18'', ''B20'', ''B22'', ''B24'', ''D2'', ''D4'']\<rparr>"
  have h1: "[''C1'', ''C3''] \<noteq> ([] :: string list)"
    and h2: "[''D2'', ''D4''] \<noteq> ([] :: string list)" by simp_all
  have h3: "\<forall>c \<in> set plate_cells. fst c < 26" by (rule plate_cells_rows)
  have h4: "length [''C1'', ''C3''] * length [''D2'', ''D4'']
        - min (length [''C1'', ''C3'']) (length [''D2'', ''D4'']) < length plate_cells"
    by (simp add: plate_cells_length)
  have h5: "sample_primers ?self 12 = ([''C1'', ''C3''], [''D2'', ''D4''])"
    by (simp add: sample_primers_def slice_from_def)
  have h6: "True \<longrightarrow> 0 \<le> randseed ?self \<and> randseed ?self < 2 ^ 32" by simp
  note inst = capacity_shortfall_never_returns[OF h1 h2 h3 h4,
      of 500 Suc ?self True "(+) \<circ> nat" Suc]
  have a: "transfer_loop [''C1'', ''C3''] [''D2'', ''D4''] 500 plate_cells Suc = None"
    by (rule inst[THEN conjunct1])
  have b: "generate_transfer_df ((+) \<circ> nat) ?self 500 True Suc = None"
    using inst[THEN conjunct2] h5 h6 by blast
  have h3': "list_all (\<lambda>c. fst c < 26) plate_cells" using h3 unfolding list_all_iff .
  from h1 h2 h3' h4 h5 a b show ?thesis by (intro conjI)
qed

text \<open>
  The claim as stated fails: with two forward and two reverse primers and five cells,
  and with the same pools and the full plate, the result is not an error but no
  result at all.
\<close>

theorem capacity_guard_counterexample:
  "transfer_loop [''C1'', ''C3''] [''D2'', ''D4''] 500
     [(0, 0), (0, 1), (0, 2), (0, 3), (0, 4)] id = None
   \<and> generate_transfer_df ((+) \<circ> nat)
       \<lparr>randseed = 7, grid = [],
        fprimers_full = [''A1'', ''A3'', ''A5'', ''A7'', ''A9'', ''A11'', ''A13'', ''A15'',
                         ''A17'', ''A19'', ''A21'', ''A23'', ''C1'', ''C3''],
        rprimers_full = [''B2'', ''B4'', ''B6'', ''B8'', ''B10'', ''B12'', ''B14'', ''B16'',
                         ''B18'', ''B20'', ''B22'', ''B24'', ''D2'', ''D4'']\<rparr>
       500 True id = None"
proof
  show "transfer_loop [''C1'', ''C3''] [''D2'', ''D4''] 500
     [(0, 0), (0, 1), (0, 2), (0, 3), (0, 4)] id = None"
    by (rule transfer_loop_never_returns) simp_all
next
  show "generate_transfer_df ((+) \<circ> nat)
       \<lparr>randseed = 7, grid = [],
        fprimers_full = [''A1'', ''A3'', ''A5'', ''A7'', ''A9'', ''A11'', ''A13'', ''A15'',
                         ''A17'', ''A19'', ''A21'', ''A23'', ''C1'', ''C3''],
        rprimers_full = [''B2'', ''B4'', ''B6'', ''B8'', ''B10'', ''B12'', ''B14'', ''B16'',
                         ''B18'', ''B20'', ''B22'', ''B24'', ''D2'', ''D4'']\<rparr>
       500 True id = None"
    by (rule generate_transfer_df_never_returns[where fp = "[''C1'', ''C3'']" and rp = "[''D2'', ''D4'']"])
       (simp_all add: sample_primers_def slice_from_def)
qed

subsection \<open>No pair of equal indices\<close>

text \<open>
  Claim C3. In every pair accepted by the engine the reverse index differs from the
  forward index, whatever labels the two pools hold: the comparison is between the
  raw indices.
\<close>

theorem self_pair_exclusion:
  assumes "transfer_loop fp rp vol cells g = Some (Inr st)"
  shows "\<forall>p \<in> set (covered_list st). fst p \<noteq> snd p"
  using transfer_loop_ret[OF assms] by (auto simp: valid_pair_def)

theorem self_pair_exclusion_witness:
  "\<exists>st. transfer_loop [''A1'', ''A3''] [''B2'', ''B4''] 250 [(0, 0), (0, 1)] (\<lambda>i. i div 2)
           = Some (Inr st)
       \<and> covered_list st \<noteq> []
       \<and> list_all (\<lambda>p. fst p \<noteq> snd p) (covered_list st)"
proof -
  have "case transfer_loop [''A1'', ''A3''] [''B2'', ''B4''] 250 [(0, 0), (0, 1)] (\<lambda>i. i div 2)
    of Some (Inr st) \<Rightarrow> covered_list st \<noteq> [] | _ \<Rightarrow> False"
    by code_simp
  then obtain st where run:
    "transfer_loop [''A1'', ''A3''] [''B2'', ''B4''] 250 [(0, 0), (0, 1)] (\<lambda>i. i div 2) = Some (Inr st)"
    and ne: "covered_list st \<noteq> []"
    by (auto split: option.splits sum.splits)
  from self_pair_exclusion[OF run] run ne show ?thesis by (auto simp: list_all_iff)
qed

subsection \<open>Determinism under a seed\<close>

text \<open>
  Claim C4. With \<^verbatim>\<open>use_seed\<close> set, the result of \<^verbatim>\<open>generate_transfer_df\<close> is a
  function of the seed, the pools and the volume alone: the state of the global
  generator at the time of the call has no influence, since it is replaced by the
  seeded one before the first draw. Two calls with the same arguments therefore agree
  in everything, including whether they return at all.
\<close>

theorem determinism:
  "generate_transfer_df np_seed self volume_nl True g0 =
   generate_transfer_df np_seed self volume_nl True g1"
  by (simp add: generate_transfer_df_def)

subsection \<open>Shape and order of the output\<close>



subsection \<open>Termination and the capacity of the pools\<close>

text \<open>
  Claim C6, as amended. With \<open>F\<close> forward primers, \<open>R\<close> reverse primers and \<open>N \<ge> 1\<close>
  cells in rows below 26:
  the capacity condition \<open>N \<le> F * R - min F R\<close> is necessary for the engine to
  return, on every random source;
  the engine returns exactly when the pairs handed out by the source contain, after
  finitely many attempts, \<open>N\<close> different pairs;
  under the capacity condition it returns on every fair source;
  under the capacity condition and with at least two reverse primers, every finite
  sequence of draws can be continued so that the engine returns;
  neither loop has a bound on the number of attempts: the reverse loop returns the
  first draw that differs from the forward index after any number of rejected draws,
  and the loop over pairs returns the first pair not yet used after any number of
  rejected pairs;
  with a single reverse primer, a run whose first forward draw is index 0 never
  returns, whatever the capacity.
\<close>

theorem termination_and_capacity:
  "(transfer_loop fp rp vol cells g = Some (Inr st)
      \<longrightarrow> length cells \<le> length fp * length rp - min (length fp) (length rp))
 \<and> (cells \<noteq> [] \<and> (\<forall>c \<in> set cells. fst c < 26)
      \<longrightarrow> ((\<exists>st'. transfer_loop fp rp vol cells h = Some (Inr st'))
            \<longleftrightarrow> (\<exists>m ps h'. draws m (length fp) (length rp) h = Some (Inr (ps, h'))
                   \<and> length cells \<le> card (set ps))))
 \<and> (fair (length fp) (length rp) h \<and> cells \<noteq> [] \<and> (\<forall>c \<in> set cells. fst c < 26)
      \<and> length cells \<le> length fp * length rp - min (length fp) (length rp)
      \<longrightarrow> (\<exists>st'. transfer_loop fp rp vol cells h = Some (Inr st')))
 \<and> (fp \<noteq> [] \<and> 2 \<le> length rp \<and> cells \<noteq> [] \<and> (\<forall>c \<in> set cells. fst c < 26)
      \<and> length cells \<le> length fp * length rp - min (length fp) (length rp)
      \<longrightarrow> (\<exists>h' st'. transfer_loop fp rp vol cells (prepend xs h') = Some (Inr st')))
\<and> (0 < nr \<and> u k mod nr \<noteq> f \<and> (\<forall>i < k. u i mod nr = f)
      \<longrightarrow> draw_reverse f nr u = Some (Inr (u k mod nr, shift (Suc k) u)))
 \<and> (draws n nf nr' w = Some (Inr (qs, w1)) \<and> set qs \<subseteq> set cov \<and> tup \<in> set cov
      \<and> draw_pair nf nr' w1 = Some (Inr (q, w2)) \<and> q \<notin> set cov
      \<longrightarrow> resample cov nf nr' tup w = Some (Inr (q, w2)))
 \<and> (fq \<noteq> [] \<and> length rq = 1 \<and> v 0 mod length fq = 0
      \<longrightarrow> transfer_loop fq rq vol cells' v = None)"
proof (intro conjI impI)
  assume "transfer_loop fp rp vol cells g = Some (Inr st)"
  then show "length cells \<le> length fp * length rp - min (length fp) (length rp)"
    by (rule transfer_loop_capacity)
next
  assume "cells \<noteq> [] \<and> (\<forall>c \<in> set cells. fst c < 26)"
  then show "(\<exists>st'. transfer_loop fp rp vol cells h = Some (Inr st'))
            \<longleftrightarrow> (\<exists>m ps h'. draws m (length fp) (length rp) h = Some (Inr (ps, h'))
                   \<and> length cells \<le> card (set ps))"
    using transfer_loop_returns_iff[of cells fp rp vol h] by blast
next
  assume a: "fair (length fp) (length rp) h \<and> cells \<noteq> [] \<and> (\<forall>c \<in> set cells. fst c < 26)
      \<and> length cells \<le> length fp * length rp - min (length fp) (length rp)"
  show "\<exists>st'. transfer_loop fp rp vol cells h = Some (Inr st')"
    by (rule transfer_loop_returns_fair) (use a in blast)+
next
  assume "fp \<noteq> [] \<and> 2 \<le> length rp \<and> cells \<noteq> [] \<and> (\<forall>c \<in> set cells. fst c < 26)
      \<and> length cells \<le> length fp * length rp - min (length fp) (length rp)"
  then show "\<exists>h' st'. transfer_loop fp rp vol cells (prepend xs h') = Some (Inr st')"
    using transfer_loop_can_always_return[of fp rp cells vol xs] by blast
next
  assume "0 < nr \<and> u k mod nr \<noteq> f \<and> (\<forall>i < k. u i mod nr = f)"
  then show "draw_reverse f nr u = Some (Inr (u k mod nr, shift (Suc k) u))"
    using draw_reverse_returns[of nr u k f] by blast
next
  assume "draws n nf nr' w = Some (Inr (qs, w1)) \<and> set qs \<subseteq> set cov \<and> tup \<in> set cov
      \<and> draw_pair nf nr' w1 = Some (Inr (q, w2)) \<and> q \<notin> set cov"
  then show "resample cov nf nr' tup w = Some (Inr (q, w2))"
    using resample_after_rejections[of n nf nr' w qs w1 cov tup q w2] by blast
next
  assume "fq \<noteq> [] \<and> length rq = 1 \<and> v 0 mod length fq = 0"
  then have "fq \<noteq> []" and "length rq = 1" and "v 0 mod length fq = 0" by simp_all
  then show "transfer_loop fq rq vol cells' v = None"
    by (rule transfer_loop_single_reverse)
qed

theorem termination_and_capacity_witness:
  "fair (length [''A1'', ''A3'', ''A5'']) (length [''B2'', ''B4'', ''B6''])
     (stream_of_pairs [(0, 1), (0, 2), (1, 0), (1, 2), (2, 0), (2, 1)])
 \<and> [(0::nat, 0::nat), (0, 1)] \<noteq> [] \<and> list_all (\<lambda>c. fst c < 26) [(0::nat, 0::nat), (0, 1)]
 \<and> length [(0::nat, 0::nat), (0, 1)]
     \<le> length [''A1'', ''A3'', ''A5''] * length [''B2'', ''B4'', ''B6'']
        - min (length [''A1'', ''A3'', ''A5'']) (length [''B2'', ''B4'', ''B6''])
 \<and> (\<exists>st. transfer_loop [''A1'', ''A3'', ''A5''] [''B2'', ''B4'', ''B6''] 500 [(0, 0), (0, 1)]
           (stream_of_pairs [(0, 1), (0, 2), (1, 0), (1, 2), (2, 0), (2, 1)]) = Some (Inr st))
 \<and> (\<exists>m ps h'. draws m (length [''A1'', ''A3'', ''A5'']) (length [''B2'', ''B4'', ''B6''])
                 (stream_of_pairs [(0, 1), (0, 2), (1, 0), (1, 2), (2, 0), (2, 1)])
               = Some (Inr (ps, h'))
             \<and> length [(0::nat, 0::nat), (0, 1)] \<le> card (set ps))
 \<and> [''A1'', ''A3'', ''A5''] \<noteq> [] \<and> 2 \<le> length [''B2'', ''B4'', ''B6'']
 \<and> (\<exists>h' st'. transfer_loop [''A1'', ''A3'', ''A5''] [''B2'', ''B4'', ''B6''] 500 [(0, 0), (0, 1)]
              (prepend [0, 0, 0] h') = Some (Inr st'))
\<and> (0::nat) < 3 \<and> Suc 1 mod 3 \<noteq> (1::nat) \<and> Suc 0 mod 3 = (1::nat)
 \<and> draw_reverse 1 3 Suc = Some (Inr (Suc 1 mod 3, shift (Suc 1) Suc))
 \<and> draws 1 3 3 (stream_of_pairs [(0, 1), (0, 2), (1, 0), (1, 2), (2, 0), (2, 1)])
     = Some (Inr ([(0, 1)],
                  shift 2 (stream_of_pairs [(0, 1), (0, 2), (1, 0), (1, 2), (2, 0), (2, 1)])))
 \<and> draw_pair 3 3 (shift 2 (stream_of_pairs [(0, 1), (0, 2), (1, 0), (1, 2), (2, 0), (2, 1)]))
     = Some (Inr ((0, 2),
                  shift 4 (stream_of_pairs [(0, 1), (0, 2), (1, 0), (1, 2), (2, 0), (2, 1)])))
 \<and> resample [(0, 1)] 3 3 (0, 1)
       (stream_of_pairs [(0, 1), (0, 2), (1, 0), (1, 2), (2, 0), (2, 1)])
     = Some (Inr ((0, 2),
                  shift 4 (stream_of_pairs [(0, 1), (0, 2), (1, 0), (1, 2), (2, 0), (2, 1)])))
 \<and> [''A1'', ''A3''] \<noteq> [] \<and> length [''B2''] = 1 \<and> id 0 mod length [''A1'', ''A3''] = (0::nat)
 \<and> length [(0::nat, 0::nat)]
     \<le> length [''A1'', ''A3''] * length [''B2''] - min (length [''A1'', ''A3'']) (length [''B2''])
 \<and> transfer_loop [''A1'', ''A3''] [''B2''] 500 [(0, 0)] id = None"
proof -
  let ?fp = "[''A1'', ''A3'', ''A5'']" and ?rp = "[''B2'', ''B4'', ''B6'']"
  let ?cells = "[(0::nat, 0::nat), (0, 1)]"
  let ?six = "[(0::nat, 1::nat), (0, 2), (1, 0), (1, 2), (2, 0), (2, 1)]"
  let ?h = "stream_of_pairs ?six"
  let ?fq = "[''A1'', ''A3'']" and ?rq = "[''B2'']"
  have l3: "length ?fp = 3" "length ?rp = 3" by simp_all
  have h1: "fair (length ?fp) (length ?rp) ?h" unfolding l3 by (rule fair_all_pairs_3)
  have h2: "?cells \<noteq> []" and h3: "\<forall>c \<in> set ?cells. fst c < 26" by simp_all
  have h3': "list_all (\<lambda>c. fst c < 26) ?cells" by simp
  have h4: "length ?cells \<le> length ?fp * length ?rp - min (length ?fp) (length ?rp)" by simp
  have h5: "(0::nat) < 3" and h6: "Suc 1 mod 3 \<noteq> (1::nat)" and h7': "Suc 0 mod 3 = (1::nat)"
    by simp_all
  have h7: "\<forall>i < 1. Suc i mod 3 = (1::nat)" by simp
  have v0: "valid_pair 3 3 (?six ! 0)" and v1: "valid_pair 3 3 (?six ! 1)"
    by (simp_all add: valid_pair_def)
  have p0: "draw_pair 3 3 ?h = Some (Inr ((0, 1), shift 2 ?h))"
    using draw_pair_stream_of_pairs[of 0 ?six 3 3] v0 by (simp add: shift_0)
  have h8: "draws 1 3 3 ?h = Some (Inr ([(0, 1)], shift 2 ?h))"
    using p0 by (simp add: bind_res_def)
  have h9: "draw_pair 3 3 (shift 2 ?h) = Some (Inr ((0, 2), shift 4 ?h))"
    using draw_pair_stream_of_pairs[of 1 ?six 3 3] v1 by simp
  have h10: "set [(0::nat, 1::nat)] \<subseteq> set [(0, 1)]" and h11: "(0::nat, 1::nat) \<in> set [(0, 1)]"
    and h12: "(0::nat, 2::nat) \<notin> set [(0, 1)]" by simp_all
  have k1: "?fq \<noteq> []" and k2: "length ?rq = 1" and k3: "id 0 mod length ?fq = (0::nat)"
    and k4: "length [(0::nat, 0::nat)] \<le> length ?fq * length ?rq - min (length ?fq) (length ?rq)"
    by simp_all
  have j1: "?fp \<noteq> []" and j2: "2 \<le> length ?rp" by simp_all
  note inst = termination_and_capacity[of ?fp ?rp 500 ?cells ?h _ ?h "[0, 0, 0]" 3 Suc 1 1
      1 3 3 ?h "[(0, 1)]" "shift 2 ?h" "[(0, 1)]" "(0, 1)" "(0, 2)" "shift 4 ?h"
      ?fq ?rq id "[(0, 0)]"]
  have b: "\<exists>st. transfer_loop ?fp ?rp 500 ?cells ?h = Some (Inr st)"
    using inst[THEN conjunct2, THEN conjunct2, THEN conjunct1] h1 h2 h3 h4 by blast
  then obtain st where run: "transfer_loop ?fp ?rp 500 ?cells ?h = Some (Inr st)" ..
  have a: "length ?cells \<le> length ?fp * length ?rp - min (length ?fp) (length ?rp)"
    using inst[of st, THEN conjunct1] run by blast
  have b': "\<exists>m ps h'. draws m (length ?fp) (length ?rp) ?h = Some (Inr (ps, h'))
             \<and> length ?cells \<le> card (set ps)"
    using inst[THEN conjunct2, THEN conjunct1] h2 h3 b by blast
  note rest = inst[THEN conjunct2, THEN conjunct2, THEN conjunct2]
  have b'': "\<exists>h' st'. transfer_loop ?fp ?rp 500 ?cells (prepend [0, 0, 0] h') = Some (Inr st')"
    using rest[THEN conjunct1] j1 j2 h2 h3 h4 by blast
  have c: "draw_reverse 1 3 Suc = Some (Inr (Suc 1 mod 3, shift (Suc 1) Suc))"
    using rest[THEN conjunct2, THEN conjunct1] h5 h6 h7 by blast
  have d: "resample [(0, 1)] 3 3 (0, 1) ?h = Some (Inr ((0, 2), shift 4 ?h))"
    using rest[THEN conjunct2, THEN conjunct2, THEN conjunct1] h8 h9 h10 h11 h12 by blast
  have e: "transfer_loop ?fq ?rq 500 [(0, 0)] id = None"
    using rest[THEN conjunct2, THEN conjunct2, THEN conjunct2] k1 k2 k3 by blast
  from h1 h2 h3' a b b' j1 j2 b'' h5 h6 h7' c h8 h9 d k1 k2 k3 k4 e show ?thesis
    by (intro conjI)
qed

text \<open>
  The claim as stated fails. A forward pool of 385 primers and a reverse pool of one
  primer have the capacity \<open>385 * 1 - 1 = 384\<close> of the plate. When the first forward
  draw is index 0, every draw from the reverse pool is index 0 as well, the reverse
  loop of lines 80--82 never ends and \<^verbatim>\<open>generate_transfer_df\<close> does not return.
\<close>

theorem termination_counterexample:
  "sample_primers \<lparr>randseed = 7, grid = [], fprimers_full = replicate 397 ''A1'',
                    rprimers_full = replicate 13 ''B2''\<rparr> 12
     = (replicate 385 ''A1'', [''B2''])
 \<and> length plate_cells
     \<le> length (replicate 385 ''A1'') * length [''B2'']
        - min (length (replicate 385 ''A1'')) (length [''B2''])
 \<and> generate_transfer_df ((+) \<circ> nat)
      \<lparr>randseed = 7, grid = [], fprimers_full = replicate 397 ''A1'',
        rprimers_full = replicate 13 ''B2''\<rparr> 500 False id = None"
proof (intro conjI)
  let ?self = "\<lparr>randseed = 7, grid = [], fprimers_full = replicate 397 ''A1'',
                 rprimers_full = replicate 13 ''B2''\<rparr>"
  show sp: "sample_primers ?self 12 = (replicate 385 ''A1'', [''B2''])"
    by (simp add: sample_primers_def slice_from_def)
  show "length plate_cells
     \<le> length (replicate 385 ''A1'') * length [''B2'']
        - min (length (replicate 385 ''A1'')) (length [''B2''])"
    by (simp add: plate_cells_length)
  show "generate_transfer_df ((+) \<circ> nat) ?self 500 False id = None"
    by (rule generate_transfer_df_single_reverse[OF sp]) simp_all
qed

subsection \<open>The two pools and their trimming\<close>

text \<open>
  Claim C7. For a grid of \<open>R\<close> rows and \<open>C\<close> columns, both even and at least 2,
  the forward pool of a generator built from the grid lists the identifiers at even
  row and even column index, row by row, and the reverse pool those at odd row and
  odd column index. For an offset \<open>0 \<le> offset < (R/2) * (C/2)\<close> each active pool
  has \<open>(R/2) * (C/2) - offset\<close> entries, is not empty, and its \<open>i\<close>-th entry is entry
  \<open>offset + i\<close> of the full pool, so the order is kept.
\<close>

theorem pool_partition_and_trim:
  assumes "length wells = R" and "\<forall>row \<in> set wells. length row = C"
    and "even R" and "even C" and "2 \<le> R" and "2 \<le> C"
    and "0 \<le> offset" and "offset < int ((R div 2) * (C div 2))"
    and "self = make_generator seed (Some wells) None None"
  shows "fprimers_full self =
           concat (map (\<lambda>i. map (\<lambda>j. wells ! (2 * i) ! (2 * j)) [0..<C div 2]) [0..<R div 2])
       \<and> rprimers_full self =
           concat (map (\<lambda>i. map (\<lambda>j. wells ! (2 * i + 1) ! (2 * j + 1)) [0..<C div 2]) [0..<R div 2])
       \<and> length (fst (sample_primers self offset)) = (R div 2) * (C div 2) - nat offset
       \<and> length (snd (sample_primers self offset)) = (R div 2) * (C div 2) - nat offset
       \<and> 0 < (R div 2) * (C div 2) - nat offset
       \<and> (\<forall>i < (R div 2) * (C div 2) - nat offset.
             fst (sample_primers self offset) ! i = fprimers_full self ! (nat offset + i)
           \<and> snd (sample_primers self offset) ! i = rprimers_full self ! (nat offset + i))"
proof -
  have f: "fprimers_full self = fst (split_primers_from_grid wells)"
    and r: "rprimers_full self = snd (split_primers_from_grid wells)"
    unfolding assms(9) by (simp_all add: make_generator_def split: prod.splits)
  have F: "fprimers_full self =
           concat (map (\<lambda>i. map (\<lambda>j. wells ! (2 * i) ! (2 * j)) [0..<C div 2]) [0..<R div 2])"
    unfolding f using split_forward[OF assms(2), of] assms(1,3,4) by simp
  have Rv: "rprimers_full self =
           concat (map (\<lambda>i. map (\<lambda>j. wells ! (2 * i + 1) ! (2 * j + 1)) [0..<C div 2]) [0..<R div 2])"
    unfolding r using split_reverse[OF assms(2)] assms(1) by simp
  have lf: "length (fprimers_full self) = (R div 2) * (C div 2)"
    unfolding F by (rule length_concat_grid)
  have lr: "length (rprimers_full self) = (R div 2) * (C div 2)"
    unfolding Rv by (rule length_concat_grid)
  have sp: "sample_primers self offset =
              (drop (nat offset) (fprimers_full self), drop (nat offset) (rprimers_full self))"
    using assms(7) by (simp add: sample_primers_def slice_from_def)
  have pos: "0 < (R div 2) * (C div 2) - nat offset" using assms(7,8) by linarith
  have nth: "\<forall>i < (R div 2) * (C div 2) - nat offset.
             fst (sample_primers self offset) ! i = fprimers_full self ! (nat offset + i)
           \<and> snd (sample_primers self offset) ! i = rprimers_full self ! (nat offset + i)"
  proof (intro allI impI)
    fix i assume "i < (R div 2) * (C div 2) - nat offset"
    have le: "nat offset \<le> (R div 2) * (C div 2)" using pos by simp
    have "drop (nat offset) (fprimers_full self) ! i = fprimers_full self ! (nat offset + i)"
      by (rule nth_drop) (simp add: lf le)
    moreover
    have "drop (nat offset) (rprimers_full self) ! i = rprimers_full self ! (nat offset + i)"
      by (rule nth_drop) (simp add: lr le)
    ultimately show "fst (sample_primers self offset) ! i = fprimers_full self ! (nat offset + i)
           \<and> snd (sample_primers self offset) ! i = rprimers_full self ! (nat offset + i)"
      unfolding sp by simp
  qed
  have l1: "length (fst (sample_primers self offset)) = (R div 2) * (C div 2) - nat offset"
    unfolding sp by (simp add: lf)
  have l2: "length (snd (sample_primers self offset)) = (R div 2) * (C div 2) - nat offset"
    unfolding sp by (simp add: lr)
  from F Rv l1 l2 pos nth show ?thesis by (intro conjI)
qed

theorem pool_partition_and_trim_witness:
  "length [[''A1'', ''A2'', ''A3'', ''A4'', ''A5'', ''A6''],
           [''B1'', ''B2'', ''B3'', ''B4'', ''B5'', ''B6''],
           [''C1'', ''C2'', ''C3'', ''C4'', ''C5'', ''C6''],
           [''D1'', ''D2'', ''D3'', ''D4'', ''D5'', ''D6'']] = 4
   \<and> list_all (\<lambda>row. length row = 6)
          [[''A1'', ''A2'', ''A3'', ''A4'', ''A5'', ''A6''],
           [''B1'', ''B2'', ''B3'', ''B4'', ''B5'', ''B6''],
           [''C1'', ''C2'', ''C3'', ''C4'', ''C5'', ''C6''],
           [''D1'', ''D2'', ''D3'', ''D4'', ''D5'', ''D6'']]
   \<and> even (4::nat) \<and> even (6::nat) \<and> (2::nat) \<le> 4 \<and> (2::nat) \<le> 6
   \<and> (0::int) \<le> 2 \<and> (2::int) < int ((4 div 2) * (6 div 2))
   \<and> length (fst (sample_primers (make_generator 7
          (Some [[''A1'', ''A2'', ''A3'', ''A4'', ''A5'', ''A6''],
                 [''B1'', ''B2'', ''B3'', ''B4'', ''B5'', ''B6''],
                 [''C1'', ''C2'', ''C3'', ''C4'', ''C5'', ''C6''],
                 [''D1'', ''D2'', ''D3'', ''D4'', ''D5'', ''D6'']]) None None) 2))
        = (4 div 2) * (6 div 2) - nat 2
   \<and> sample_primers (make_generator 7
          (Some [[''A1'', ''A2'', ''A3'', ''A4'', ''A5'', ''A6''],
                 [''B1'', ''B2'', ''B3'', ''B4'', ''B5'', ''B6''],
                 [''C1'', ''C2'', ''C3'', ''C4'', ''C5'', ''C6''],
                 [''D1'', ''D2'', ''D3'', ''D4'', ''D5'', ''D6'']]) None None) 2
        = ([''A5'', ''C1'', ''C3'', ''C5''], [''B6'', ''D2'', ''D4'', ''D6''])"
proof -
  let ?g = "[[''A1'', ''A2'', ''A3'', ''A4'', ''A5'', ''A6''],
           [''B1'', ''B2'', ''B3'', ''B4'', ''B5'', ''B6''],
           [''C1'', ''C2'', ''C3'', ''C4'', ''C5'', ''C6''],
           [''D1'', ''D2'', ''D3'', ''D4'', ''D5'', ''D6'']]"
  let ?self = "make_generator 7 (Some ?g) None None"
  have h1: "length ?g = 4" by simp
  have h2: "\<forall>row \<in> set ?g. length row = 6" by simp
  have h2': "list_all (\<lambda>row. length row = 6) ?g" by simp
  have h3: "even (4::nat)" and h4: "even (6::nat)" and h5: "(2::nat) \<le> 4"
    and h6: "(2::nat) \<le> 6" and h7: "(0::int) \<le> 2"
    and h8: "(2::int) < int ((4 div 2) * (6 div 2))" by simp_all
  note inst = pool_partition_and_trim[OF h1 h2 h3 h4 h5 h6 h7 h8 refl, of 7]
  have l1: "length (fst (sample_primers ?self 2)) = (4 div 2) * (6 div 2) - nat 2"
    by (rule inst[THEN conjunct2, THEN conjunct2, THEN conjunct1])
  have ev: "sample_primers ?self 2
        = ([''A5'', ''C1'', ''C3'', ''C5''], [''B6'', ''D2'', ''D4'', ''D6''])"
    by code_simp
  from h1 h2' h3 h4 h5 h6 h7 h8 l1 ev show ?thesis by (intro conjI)
qed

subsection \<open>Pools emptied by the offset\<close>

text \<open>
  Claim C8, as amended. \<^verbatim>\<open>sample_primers\<close> has no guard: an offset at least as
  large as a pool returns that pool empty and raises nothing. The empty pool reaches
  the engine, whose first draw from it raises numpy's \<^verbatim>\<open>ValueError\<close>.
\<close>

theorem empty_pools_are_returned:
  "(int (length (fprimers_full self)) \<le> offset \<longrightarrow> fst (sample_primers self offset) = [])
 \<and> (int (length (rprimers_full self)) \<le> offset \<longrightarrow> snd (sample_primers self offset) = [])
 \<and> ((int (length (fprimers_full self)) \<le> 12 \<or> int (length (rprimers_full self)) \<le> 12)
      \<and> (use_seed \<longrightarrow> 0 \<le> randseed self \<and> randseed self < 2 ^ 32)
    \<longrightarrow> generate_transfer_df np_seed self vol use_seed g0 = Some (Inl ValueError))"
proof (intro conjI impI)
  assume "int (length (fprimers_full self)) \<le> offset"
  then show "fst (sample_primers self offset) = []"
    by (simp add: sample_primers_def slice_from_empty)
next
  assume "int (length (rprimers_full self)) \<le> offset"
  then show "snd (sample_primers self offset) = []"
    by (simp add: sample_primers_def slice_from_empty)
next
  assume a: "(int (length (fprimers_full self)) \<le> 12 \<or> int (length (rprimers_full self)) \<le> 12)
      \<and> (use_seed \<longrightarrow> 0 \<le> randseed self \<and> randseed self < 2 ^ 32)"
  then have "fst (sample_primers self 12) = [] \<or> snd (sample_primers self 12) = []"
    by (auto simp: sample_primers_def slice_from_empty)
  with a show "generate_transfer_df np_seed self vol use_seed g0 = Some (Inl ValueError)"
    using generate_transfer_df_empty_pool by blast
qed

theorem empty_pools_are_returned_witness:
  "int (length (fprimers_full (make_generator 7 None (Some [''A1'', ''A3'']) (Some [''B2''])))) \<le> 12
 \<and> int (length (rprimers_full (make_generator 7 None (Some [''A1'', ''A3'']) (Some [''B2''])))) \<le> 12
 \<and> (0::int) \<le> randseed (make_generator 7 None (Some [''A1'', ''A3'']) (Some [''B2'']))
 \<and> randseed (make_generator 7 None (Some [''A1'', ''A3'']) (Some [''B2''])) < 2 ^ 32
 \<and> fst (sample_primers (make_generator 7 None (Some [''A1'', ''A3'']) (Some [''B2''])) 12) = []
 \<and> snd (sample_primers (make_generator 7 None (Some [''A1'', ''A3'']) (Some [''B2''])) 12) = []
 \<and> generate_transfer_df ((+) \<circ> nat) (make_generator 7 None (Some [''A1'', ''A3'']) (Some [''B2'']))
      500 True Suc = Some (Inl ValueError)"
proof -
  let ?self = "make_generator 7 None (Some [''A1'', ''A3'']) (Some [''B2''])"
  have h1: "int (length (fprimers_full ?self)) \<le> 12"
    and h2: "int (length (rprimers_full ?self)) \<le> 12"
    and h3: "(0::int) \<le> randseed ?self" and h4: "randseed ?self < 2 ^ 32"
    by (simp_all add: make_generator_def)
  note inst = empty_pools_are_returned[of ?self 12 True "(+) \<circ> nat" 500 Suc]
  have a: "fst (sample_primers ?self 12) = []"
    using inst[THEN conjunct1] h1 by blast
  have b: "snd (sample_primers ?self 12) = []"
    using inst[THEN conjunct2, THEN conjunct1] h2 by blast
  have c: "generate_transfer_df ((+) \<circ> nat) ?self 500 True Suc = Some (Inl ValueError)"
    using inst[THEN conjunct2, THEN conjunct2] h1 h3 h4 by blast
  from h1 h2 h3 h4 a b c show ?thesis by (intro conjI)
qed

text \<open>
  The claim as stated fails: with one primer in each pool and the default offset, the
  active pools are formed, both empty.
\<close>

theorem empty_pool_guard_counterexample:
  "sample_primers (make_generator 7 None (Some [''A1'']) (Some [''B2''])) 12 = ([], [])
 \<and> generate_transfer_df ((+) \<circ> nat) (make_generator 7 None (Some [''A1'']) (Some [''B2'']))
      500 True id = Some (Inl ValueError)"
proof
  show sp: "sample_primers (make_generator 7 None (Some [''A1'']) (Some [''B2''])) 12 = ([], [])"
    by (simp add: sample_primers_def make_generator_def slice_from_def)
  show "generate_transfer_df ((+) \<circ> nat) (make_generator 7 None (Some [''A1'']) (Some [''B2'']))
      500 True id = Some (Inl ValueError)"
    by (rule generate_transfer_df_empty_pool) (simp_all add: sp, simp add: make_generator_def)
qed

subsection \<open>Roles and sequences of the joined table\<close>

text \<open>
  Claim C9, as amended. Every line of the joined table comes from a transfer line and
  a barcode line with the same source label and carries the destination of the
  transfer line. Its role is the last character of the sequence name that is not a
  decimal digit, the one right before the trailing digits, provided that character is
  not a line feed; this holds whatever the class of decimal digits is. Its sequence is
  the sequence of the barcode line without its space characters; other white space is
  kept, and the result is the sequence without its white space whenever spaces were
  the only white space in it.
\<close>

theorem join_roles_and_sequences:
  assumes "j \<in> set (join_transfer_with_barcodes is_decimal df_transfer df_barcodes)"
  shows "\<exists>t \<in> set df_transfer. \<exists>b \<in> set df_barcodes.
           storage b = source_well t
         \<and> joined_destination_well j = destination_well t
         \<and> joined_sequence j = filter (\<lambda>c. c \<noteq> 32) (sequence b)
         \<and> ((\<forall>c \<in> set (sequence b). is_whitespace c \<longrightarrow> c = 32)
              \<longrightarrow> joined_sequence j = without_whitespace (sequence b))
         \<and> (\<forall>pre c ds. sequence_name b = pre @ c # ds \<and> \<not> is_decimal c \<and> c \<noteq> 10
                \<and> list_all is_decimal ds \<longrightarrow> direction j = Some c)"
proof -
  from join_member[OF assms] obtain t b where
    t: "t \<in> set df_transfer" and b: "b \<in> set df_barcodes"
    and k: "storage b = source_well t"
    and j: "j = \<lparr>joined_destination_well = destination_well t,
                   joined_sequence = remove_spaces (sequence b),
                   direction = extract_direction is_decimal (sequence_name b)\<rparr>"
    by blast
  have s1: "joined_sequence j = filter (\<lambda>c. c \<noteq> 32) (sequence b)"
    by (simp add: j remove_spaces_def)
  have s2: "(\<forall>c \<in> set (sequence b). is_whitespace c \<longrightarrow> c = 32)
              \<longrightarrow> joined_sequence j = without_whitespace (sequence b)"
    using remove_spaces_without_whitespace[of "sequence b"] by (simp add: j)
  have s3: "\<forall>pre c ds. sequence_name b = pre @ c # ds \<and> \<not> is_decimal c \<and> c \<noteq> 10
                \<and> list_all is_decimal ds \<longrightarrow> direction j = Some c"
  proof (intro allI impI)
    fix pre c ds
    assume a: "sequence_name b = pre @ c # ds \<and> \<not> is_decimal c \<and> c \<noteq> 10
                \<and> list_all is_decimal ds"
    then have "extract_direction is_decimal (pre @ c # ds) = Some c"
      using extract_direction_last_non_digit[of is_decimal c ds pre] by blast
    with a show "direction j = Some c" by (simp add: j)
  qed
  have d: "joined_destination_well j = destination_well t" by (simp add: j)
  from t b k d s1 s2 s3 show ?thesis by blast
qed

theorem join_roles_and_sequences_witness:
  "hd (join_transfer_with_barcodes sample_decimal
         [\<lparr>source_well = ''W05'', destination_well = ''A1'', volume = 500\<rparr>]
         [\<lparr>storage = ''W05'', well_position = ''E5'',
           sequence_name = codepoints ''primerF03'', sequence = codepoints ''AC GT''\<rparr>])
     \<in> set (join_transfer_with_barcodes sample_decimal
         [\<lparr>source_well = ''W05'', destination_well = ''A1'', volume = 500\<rparr>]
         [\<lparr>storage = ''W05'', well_position = ''E5'',
           sequence_name = codepoints ''primerF03'', sequence = codepoints ''AC GT''\<rparr>])
   \<and> codepoints ''primerF03'' = codepoints ''primer'' @ 70 # codepoints ''03''
   \<and> \<not> sample_decimal 70 \<and> (70::nat) \<noteq> 10 \<and> list_all sample_decimal (codepoints ''03'')
   \<and> list_all (\<lambda>c. \<not> is_whitespace c \<or> c = 32) (codepoints ''AC GT'')
   \<and> direction (hd (join_transfer_with_barcodes sample_decimal
         [\<lparr>source_well = ''W05'', destination_well = ''A1'', volume = 500\<rparr>]
         [\<lparr>storage = ''W05'', well_position = ''E5'',
           sequence_name = codepoints ''primerF03'', sequence = codepoints ''AC GT''\<rparr>]))
       = Some 70
   \<and> joined_sequence (hd (join_transfer_with_barcodes sample_decimal
         [\<lparr>source_well = ''W05'', destination_well = ''A1'', volume = 500\<rparr>]
         [\<lparr>storage = ''W05'', well_position = ''E5'',
           sequence_name = codepoints ''primerF03'', sequence = codepoints ''AC GT''\<rparr>]))
       = codepoints ''ACGT''
   \<and> joined_destination_well (hd (join_transfer_with_barcodes sample_decimal
         [\<lparr>source_well = ''W05'', destination_well = ''A1'', volume = 500\<rparr>]
         [\<lparr>storage = ''W05'', well_position = ''E5'',
           sequence_name = codepoints ''primerF03'', sequence = codepoints ''AC GT''\<rparr>]))
       = ''A1''"
proof -
  let ?T = "[\<lparr>source_well = ''W05'', destination_well = ''A1'', volume = 500\<rparr>]"
  let ?B = "[\<lparr>storage = ''W05'', well_position = ''E5'',
           sequence_name = codepoints ''primerF03'', sequence = codepoints ''AC GT''\<rparr>]"
  let ?j = "hd (join_transfer_with_barcodes sample_decimal ?T ?B)"
  have ne: "join_transfer_with_barcodes sample_decimal ?T ?B \<noteq> []"
    by (simp add: join_transfer_with_barcodes_def)
  then have mem: "?j \<in> set (join_transfer_with_barcodes sample_decimal ?T ?B)"
    by (rule hd_in_set)
  have n: "codepoints ''primerF03'' = codepoints ''primer'' @ 70 # codepoints ''03''"
    by (simp add: codepoints_def)
  have d1: "\<not> sample_decimal 70" and d2: "(70::nat) \<noteq> 10"
    and d3: "list_all sample_decimal (codepoints ''03'')"
    by (simp_all add: sample_decimal_def codepoints_def)
  have ws: "\<forall>c \<in> set (codepoints ''AC GT''). is_whitespace c \<longrightarrow> c = 32"
    by (simp add: is_whitespace_def codepoints_def)
  have ws': "list_all (\<lambda>c. \<not> is_whitespace c \<or> c = 32) (codepoints ''AC GT'')"
    by (simp add: is_whitespace_def codepoints_def)
  from join_roles_and_sequences[OF mem] obtain t b where
    t: "t \<in> set ?T" and b: "b \<in> set ?B"
    and dest: "joined_destination_well ?j = destination_well t"
    and seq: "(\<forall>c \<in> set (sequence b). is_whitespace c \<longrightarrow> c = 32)
              \<longrightarrow> joined_sequence ?j = without_whitespace (sequence b)"
    and role: "\<forall>pre c ds. sequence_name b = pre @ c # ds \<and> \<not> sample_decimal c \<and> c \<noteq> 10
                \<and> list_all sample_decimal ds \<longrightarrow> direction ?j = Some c"
    by blast
  from t have t': "destination_well t = ''A1''" by auto
  from b have b1: "sequence_name b = codepoints ''primerF03''"
    and b2: "sequence b = codepoints ''AC GT''" by auto
  have "sequence_name b = codepoints ''primer'' @ 70 # codepoints ''03'' \<and> \<not> sample_decimal 70
           \<and> (70::nat) \<noteq> 10 \<and> list_all sample_decimal (codepoints ''03'')"
    using b1 n d1 d2 d3 by (intro conjI) (rule trans, assumption+)
  then have r: "direction ?j = Some 70"
    by (rule role[rule_format])
  have "joined_sequence ?j = without_whitespace (codepoints ''AC GT'')"
    using seq ws unfolding b2 by blast
  also have "\<dots> = codepoints ''ACGT''"
    by (simp add: without_whitespace_def is_whitespace_def codepoints_def)
  finally have s: "joined_sequence ?j = codepoints ''ACGT''" .
  have dd: "joined_destination_well ?j = ''A1''" using dest t' by simp
  from mem n d1 d2 d3 ws' r s dd show ?thesis by (intro conjI)
qed

text \<open>
  The claim as stated fails for white space other than the space: a tab (code point 9)
  inside the sequence survives the join. A sequence name that ends in a line feed
  shows why the role needs its proviso: the role of \<^verbatim>\<open>F03\<close> followed by a line feed
  is \<^verbatim>\<open>F\<close>.
\<close>

theorem join_whitespace_counterexample:
  "map joined_sequence (join_transfer_with_barcodes sample_decimal
      [\<lparr>source_well = ''W05'', destination_well = ''A1'', volume = 500\<rparr>]
      [\<lparr>storage = ''W05'', well_position = ''E5'', sequence_name = codepoints ''primerF03'',
        sequence = [65, 67, 9, 71, 84]\<rparr>])
     = [[65, 67, 9, 71, 84]]
   \<and> is_whitespace 9
   \<and> without_whitespace [65, 67, 9, 71, 84] = codepoints ''ACGT''
   \<and> [65, 67, 9, 71, 84] \<noteq> codepoints ''ACGT''
   \<and> map direction (join_transfer_with_barcodes sample_decimal
      [\<lparr>source_well = ''W05'', destination_well = ''A1'', volume = 500\<rparr>]
      [\<lparr>storage = ''W05'', well_position = ''E5'',
        sequence_name = [70, 48, 51, 10], sequence = codepoints ''ACGT''\<rparr>])
     = [Some 70]"
  by (simp add: join_transfer_with_barcodes_def remove_spaces_def without_whitespace_def
      is_whitespace_def match_here_def sample_decimal_def at_dollar_def codepoints_def)

subsection \<open>Indexing stays inside the pools\<close>

text \<open>
  Claim C10. With both active pools non-empty (and row letters available for the
  cells) the engine raises nothing, in particular no \<^verbatim>\<open>IndexError\<close>, and every
  accepted forward index is below the size of the forward pool and every accepted
  reverse index below the size of the reverse pool. The draws themselves are in
  range by the contract of \<^verbatim>\<open>randint\<close>.
\<close>

theorem in_bounds_indexing:
  assumes "fp \<noteq> []" and "rp \<noteq> []" and "\<forall>c \<in> set cells. fst c < 26"
  shows "(\<forall>e. transfer_loop fp rp vol cells g \<noteq> Some (Inl e))
       \<and> (\<forall>st. transfer_loop fp rp vol cells g = Some (Inr st) \<longrightarrow>
             (\<forall>p \<in> set (covered_list st). fst p < length fp \<and> snd p < length rp))"
proof (intro conjI allI impI)
  fix e show "transfer_loop fp rp vol cells g \<noteq> Some (Inl e)"
    using transfer_loop_err[OF _ assms] by blast
next
  fix st assume "transfer_loop fp rp vol cells g = Some (Inr st)"
  from transfer_loop_ret[OF this]
  show "\<forall>p \<in> set (covered_list st). fst p < length fp \<and> snd p < length rp"
    by (auto simp: valid_pair_def)
qed

theorem in_bounds_indexing_witness:
  "[''A13'', ''A15''] \<noteq> ([] :: string list) \<and> [''B14'', ''B16'', ''B18''] \<noteq> ([] :: string list)
     \<and> list_all (\<lambda>c. fst c < 26) [(0::nat, 0::nat), (0, 1), (0, 2)]
     \<and> (\<exists>st. transfer_loop [''A13'', ''A15''] [''B14'', ''B16'', ''B18''] 500
                 [(0, 0), (0, 1), (0, 2)] (\<lambda>i. i + 1) = Some (Inr st)
             \<and> covered_list st \<noteq> []
             \<and> list_all (\<lambda>p. fst p < length [''A13'', ''A15'']
                              \<and> snd p < length [''B14'', ''B16'', ''B18'']) (covered_list st))"
proof -
  have h1: "[''A13'', ''A15''] \<noteq> ([] :: string list)"
    and h2: "[''B14'', ''B16'', ''B18''] \<noteq> ([] :: string list)"
    and h3: "\<forall>c \<in> set [(0::nat, 0::nat), (0, 1), (0, 2)]. fst c < 26"
    by simp_all
  have "case transfer_loop [''A13'', ''A15''] [''B14'', ''B16'', ''B18''] 500
               [(0, 0), (0, 1), (0, 2)] (\<lambda>i. i + 1) of
          Some (Inr st) \<Rightarrow> covered_list st \<noteq> [] | _ \<Rightarrow> False"
    by code_simp
  then obtain st where run:
    "transfer_loop [''A13'', ''A15''] [''B14'', ''B16'', ''B18''] 500
               [(0, 0), (0, 1), (0, 2)] (\<lambda>i. i + 1) = Some (Inr st)"
    and ne: "covered_list st \<noteq> []"
    by (auto split: option.splits sum.splits)
  from in_bounds_indexing[OF h1 h2 h3, of 500 "\<lambda>i. i + 1"] run
  have "\<forall>p \<in> set (covered_list st). fst p < length [''A13'', ''A15'']
                              \<and> snd p < length [''B14'', ''B16'', ''B18'']"
    by blast
  then have "list_all (\<lambda>p. fst p < length [''A13'', ''A15'']
                              \<and> snd p < length [''B14'', ''B16'', ''B18'']) (covered_list st)"
    unfolding list_all_iff .
  moreover have "list_all (\<lambda>c. fst c < 26) [(0::nat, 0::nat), (0, 1), (0, 2)]"
    using h3 unfolding list_all_iff .
  ultimately show ?thesis using h1 h2 run ne by blast
qed

end
